theory Spec2Isabelle
  imports Complex_Main "HOL-Library.Sublist" "HOL-Library.Multiset"
begin

section \<open>Dispatcher: partition of the target over the active wallets\<close>

text \<open>
  \<^verbatim>\<open>main\<close> of \<^verbatim>\<open>mint.js\<close> (the revision with \<^verbatim>\<open>withWalletLock\<close>) computes
  \<^verbatim>\<open>transactionsPerWalletBase = Math.floor(TOTAL / numActiveWallets)\<close> and
  \<^verbatim>\<open>remainderTransactions = TOTAL % numActiveWallets\<close>, then walks the active wallets in
  order. Every wallet gets the base, plus one while the remainder is positive. A wallet
  with zero transactions is skipped, the inner loop stops at the safety break
  \<^verbatim>\<open>overallDispatchedCount >= TOTAL\<close>, and the outer loop stops once everything is
  dispatched. The model returns, per wallet visited, the number of flows the inner loop
  really dispatched; wallets the outer loop never reaches get no entry.
\<close>

text \<open>The inner loop \<^verbatim>\<open>for (j = 0; j < transactionsForThisWallet; j++)\<close>: the number of
  dispatches it makes, starting with \<^verbatim>\<open>overallDispatchedCount = overall\<close>.\<close>

fun innerDispatch :: "nat \<Rightarrow> nat \<Rightarrow> nat \<Rightarrow> nat" where
  "innerDispatch tot 0 overall = 0"
| "innerDispatch tot (Suc k) overall =
     (if overall \<ge> tot then 0
      else Suc (innerDispatch tot k (Suc overall)))"

text \<open>The outer loop over \<^verbatim>\<open>activeWallets\<close>, carrying \<^verbatim>\<open>remainderTransactions\<close> and
  \<^verbatim>\<open>overallDispatchedCount\<close>.\<close>

fun walletLoop :: "nat \<Rightarrow> nat \<Rightarrow> nat \<Rightarrow> nat \<Rightarrow> 'w list \<Rightarrow> nat list" where
  "walletLoop tot base rmd overall [] = []"
| "walletLoop tot base rmd overall (w # ws) =
     (let transactionsForThisWallet = (if rmd > 0 then base + 1 else base);
          rmd' = (if rmd > 0 then rmd - 1 else rmd)
      in if transactionsForThisWallet = 0
         then 0 # walletLoop tot base rmd' overall ws
         else
           (let d = innerDispatch tot transactionsForThisWallet overall;
                overall' = overall + d
            in if overall' \<ge> tot then [d]
               else d # walletLoop tot base rmd' overall' ws))"

text \<open>\<^verbatim>\<open>main\<close> returns early when there is no active wallet, so nothing is
  dispatched (\<open>None\<close>).\<close>

definition dispatchCounts :: "nat \<Rightarrow> 'w list \<Rightarrow> nat list option" where
  "dispatchCounts tot activeWallets =
     (if length activeWallets = 0 then None
      else Some (walletLoop tot
                   (tot div length activeWallets)
                   (tot mod length activeWallets) 0 activeWallets))"

text \<open>The number of flows wallet \<open>k\<close> gets: the entry of the list, or none when the
  outer loop stopped before reaching it.\<close>

definition assigned :: "nat list \<Rightarrow> nat \<Rightarrow> nat" where
  "assigned ds k = (if k < length ds then ds ! k else 0)"

text \<open>The earlier \<^verbatim>\<open>main\<close> (no lock) hands transaction \<open>i\<close> to wallet
  \<^verbatim>\<open>i % activeWallets.length\<close>, for \<open>i\<close> from 0 to \<open>TOTAL - 1\<close>.\<close>

definition roundRobinTargets :: "nat \<Rightarrow> nat \<Rightarrow> nat list" where
  "roundRobinTargets tot n = map (\<lambda>i. i mod n) [0..<tot]"

section \<open>Errors and results of the external send\<close>

text \<open>
  A JavaScript error object as the code reads it: \<^verbatim>\<open>err.message\<close>, and the optional
  \<^verbatim>\<open>err.reason\<close> and \<^verbatim>\<open>err.code\<close> (the code already turned into a string, as
  \<^verbatim>\<open>err.code.toString()\<close> does).
\<close>

record err =
  message :: string
  reason :: "string option"
  code :: "string option"

text \<open>What awaiting the external send gives: a receipt (here its transaction hash), or a
  thrown error.\<close>

datatype send_outcome = Sent string | Threw err

section \<open>The proxy manager\<close>

subsection \<open>Data\<close>

definition MIN_REQUEST_INTERVAL_MS :: real where
  "MIN_REQUEST_INTERVAL_MS = 100"

definition MAX_PROXY_FAILURES :: nat where
  "MAX_PROXY_FAILURES = 3"

text \<open>
  A task as \<^verbatim>\<open>submitTransaction\<close> builds it. \<open>taskId\<close> stands for the pair of
  closures \<^verbatim>\<open>resolve\<close>/\<^verbatim>\<open>reject\<close> of the promise the call returns: every call makes a
  new promise, so every task gets a fresh number. \<^verbatim>\<open>methodArgs\<close> and \<^verbatim>\<open>txOptions\<close> are
  payload the queue never looks at and are left out.
\<close>

record task =
  taskId :: nat
  privateKey :: string
  nonce :: nat
  methodName :: string

text \<open>
  One entry of \<^verbatim>\<open>this.proxies\<close>. The entry's \<^verbatim>\<open>id\<close>, \<^verbatim>\<open>config\<close>, \<^verbatim>\<open>url\<close> and
  \<^verbatim>\<open>agent\<close> never change and decide nothing here; a proxy is known by its position in
  the list.
\<close>

record proxy =
  requestQueue :: "task list"
  isProcessing :: bool
  failureCount :: nat
  isHealthy :: bool
  lastRequestTime :: real

text \<open>
  What the event loop holds for the manager: a callback given to \<^verbatim>\<open>setTimeout\<close> by
  \<^verbatim>\<open>_processQueue\<close> (proxy, task, the time of the call and the delay asked for), or a
  running \<^verbatim>\<open>_sendTransactionThroughProxy\<close> that awaits the network (proxy, task).
\<close>

datatype pending = Timer nat task real real | Sending nat task

text \<open>
  The writes and calls of the code, recorded in the order the statements run. The first
  argument is the proxy's position, a task is named by its \<open>taskId\<close>.
\<close>

datatype effect =
    Enqueue nat nat
  | SetProcessing nat bool
  | Dequeue nat nat
  | SetTimeout nat nat real
  | SetLastRequestTime nat real
  | SendStart nat nat
  | SetFailureCount nat nat
  | SetHealthy nat bool
  | TaskResolve nat string
  | TaskReject nat err
  | CallProcessQueue nat

text \<open>
  The manager: \<^verbatim>\<open>this.proxies\<close> and \<^verbatim>\<open>this.currentProxyIndex\<close>, the pending callbacks
  of the event loop, and three fields that only observe the run: the number of promises
  made so far, the time of the latest event, and the effects so far.
\<close>

record manager =
  proxies :: "proxy list"
  currentProxyIndex :: nat
  pendings :: "pending list"
  nextTaskId :: nat
  clock :: real
  trace :: "effect list"

text \<open>The constructor: one healthy, idle proxy with an empty queue per configuration.\<close>

definition newProxy :: proxy where
  "newProxy = \<lparr>requestQueue = [], isProcessing = False, failureCount = 0,
               isHealthy = True, lastRequestTime = 0\<rparr>"

definition ProxyManager :: "nat \<Rightarrow> manager" where
  "ProxyManager n = \<lparr>proxies = replicate n newProxy, currentProxyIndex = 0,
                      pendings = [], nextTaskId = 0, clock = 0, trace = []\<rparr>"

definition updProxy :: "nat \<Rightarrow> (proxy \<Rightarrow> proxy) \<Rightarrow> manager \<Rightarrow> manager" where
  "updProxy i f m = m\<lparr>proxies := (proxies m)[i := f (proxies m ! i)]\<rparr>"

definition emit :: "effect list \<Rightarrow> manager \<Rightarrow> manager" where
  "emit es m = m\<lparr>trace := trace m @ es\<rparr>"

subsection \<open>\<^verbatim>\<open>_selectProxy\<close>\<close>

text \<open>
  The result of \<^verbatim>\<open>_selectProxy\<close>: a proxy (its position), \<^verbatim>\<open>null\<close>, or the
  \<^verbatim>\<open>TypeError\<close> that reading \<^verbatim>\<open>proxy.isHealthy\<close> raises when
  \<^verbatim>\<open>this.proxies[this.currentProxyIndex]\<close> is \<^verbatim>\<open>undefined\<close>.
\<close>

datatype select_result = Selected nat | NoHealthy | Thrown

text \<open>
  The loop \<^verbatim>\<open>for (let i = 0; i < this.proxies.length; i++)\<close>. The cursor is advanced
  before the health of the proxy is read.
\<close>

function selectLoop :: "nat \<Rightarrow> manager \<Rightarrow> select_result \<times> manager" where
  "selectLoop i m =
     (if i < length (proxies m) then
        (let c = currentProxyIndex m;
             m' = m\<lparr>currentProxyIndex := (c + 1) mod length (proxies m)\<rparr>
         in if c < length (proxies m) then
              (if isHealthy (proxies m ! c) then (Selected c, m')
               else selectLoop (i + 1) m')
            else (Thrown, m'))
      else (NoHealthy, m))"
  by pat_completeness auto
termination
  by (relation "measure (\<lambda>(i, m). length (proxies m) - i)") auto

definition selectProxy :: "manager \<Rightarrow> select_result \<times> manager" where
  "selectProxy m = selectLoop 0 m"

subsection \<open>\<^verbatim>\<open>_processQueue\<close>\<close>

text \<open>
  \<open>now\<close> is what \<^verbatim>\<open>Date.now()\<close> returns and \<open>jitter\<close> what \<^verbatim>\<open>Math.random() * 10\<close>
  returns. When the guard lets the call through, the head task is taken off the queue
  and a timer is set; the timer's callback is \<open>timerCallback\<close> below.
\<close>

definition processQueue :: "real \<Rightarrow> real \<Rightarrow> nat \<Rightarrow> manager \<Rightarrow> manager" where
  "processQueue now jitter i m =
     (if i \<ge> length (proxies m) then m
      else
        (let p = proxies m ! i in
         case requestQueue p of
           [] \<Rightarrow> m
         | t # q \<Rightarrow>
             if isProcessing p \<or> \<not> isHealthy p then m
             else
               (let timeSinceLastRequest = now - lastRequestTime p;
                    delayRequired = max 0 (MIN_REQUEST_INTERVAL_MS - timeSinceLastRequest);
                    m1 = updProxy i (\<lambda>p. p\<lparr>isProcessing := True, requestQueue := q\<rparr>) m;
                    m2 = m1\<lparr>pendings := pendings m1 @ [Timer i t now (delayRequired + jitter)]\<rparr>
                in emit [SetProcessing i True, Dequeue i (taskId t),
                         SetTimeout i (taskId t) (delayRequired + jitter)] m2)))"

text \<open>The callback of the timer: it stamps the proxy and starts the send.\<close>

definition timerCallback :: "real \<Rightarrow> nat \<Rightarrow> task \<Rightarrow> manager \<Rightarrow> manager" where
  "timerCallback now i t m =
     (let m1 = updProxy i (\<lambda>p. p\<lparr>lastRequestTime := now\<rparr>) m;
          m2 = m1\<lparr>pendings := pendings m1 @ [Sending i t]\<rparr>
      in emit [SetLastRequestTime i now, SendStart i (taskId t)] m2)"

subsection \<open>\<^verbatim>\<open>_sendTransactionThroughProxy\<close>, from the end of the send\<close>

text \<open>
  The \<^verbatim>\<open>try\<close> block either reaches \<^verbatim>\<open>task.resolve(receipt)\<close> or throws into the
  \<^verbatim>\<open>catch\<close> block; which of the two is the outcome of the external send. The
  \<^verbatim>\<open>finally\<close> block runs after either. The statements before the \<^verbatim>\<open>try\<close> block
  build the provider and the signer; should they throw, the function would end without
  touching the proxy, which a run shows as a send that never ends.
\<close>

definition sendSettled :: "real \<Rightarrow> real \<Rightarrow> nat \<Rightarrow> task \<Rightarrow> send_outcome \<Rightarrow> manager \<Rightarrow> manager" where
  "sendSettled now jitter i t outcome m =
     (let m1 =
            (case outcome of
               Sent receipt \<Rightarrow>
                 emit [SetFailureCount i 0, SetHealthy i True, TaskResolve (taskId t) receipt]
                   (updProxy i (\<lambda>p. p\<lparr>failureCount := 0, isHealthy := True\<rparr>) m)
             | Threw error \<Rightarrow>
                 (let n = failureCount (proxies m ! i) + 1 in
                  if n \<ge> MAX_PROXY_FAILURES then
                    emit [SetFailureCount i n, SetHealthy i False, TaskReject (taskId t) error]
                      (updProxy i (\<lambda>p. p\<lparr>failureCount := n, isHealthy := False\<rparr>) m)
                  else
                    emit [SetFailureCount i n, TaskReject (taskId t) error]
                      (updProxy i (\<lambda>p. p\<lparr>failureCount := n\<rparr>) m)));
          m2 = emit [SetProcessing i False] (updProxy i (\<lambda>p. p\<lparr>isProcessing := False\<rparr>) m1);
          p = proxies m2 ! i
      in if isHealthy p \<and> requestQueue p \<noteq> []
         then processQueue now jitter i (emit [CallProcessQueue i] m2)
         else m2)"

subsection \<open>\<^verbatim>\<open>submitTransaction\<close>\<close>

definition noHealthyError :: err where
  "noHealthyError = \<lparr>message = ''No healthy proxies available.'', reason = None, code = None\<rparr>"

definition typeError :: err where
  "typeError = \<lparr>message = ''Cannot read properties of undefined'',
                 reason = None, code = None\<rparr>"

text \<open>
  The executor of the promise. An exception inside the executor rejects the promise, so
  the \<^verbatim>\<open>TypeError\<close> of \<^verbatim>\<open>_selectProxy\<close> ends as a rejection too.
\<close>

definition submitTransaction ::
    "real \<Rightarrow> real \<Rightarrow> string \<Rightarrow> nat \<Rightarrow> string \<Rightarrow> manager \<Rightarrow> manager" where
  "submitTransaction now jitter key n meth m =
     (let tid = nextTaskId m;
          m0 = m\<lparr>nextTaskId := tid + 1\<rparr>;
          (r, m1) = selectProxy m0
      in case r of
           NoHealthy \<Rightarrow> emit [TaskReject tid noHealthyError] m1
         | Thrown \<Rightarrow> emit [TaskReject tid typeError] m1
         | Selected i \<Rightarrow>
             (let taskData = \<lparr>taskId = tid, privateKey = key, nonce = n, methodName = meth\<rparr>;
                  m2 = emit [Enqueue i tid]
                         (updProxy i (\<lambda>p. p\<lparr>requestQueue := requestQueue p @ [taskData]\<rparr>) m1)
              in if \<not> isProcessing (proxies m2 ! i)
                 then processQueue now jitter i (emit [CallProcessQueue i] m2)
                 else m2))"

subsection \<open>Runs of the manager\<close>

text \<open>
  What can happen to the manager: a caller submits a transaction, a timer fires, or a
  send ends. A timer or send is named by its position among the pending callbacks.
  Every event carries the value \<^verbatim>\<open>Date.now()\<close> returns while its handler runs. \<open>step\<close>
  is \<open>None\<close> when the event cannot happen in the state: \<^verbatim>\<open>Math.random() * 10\<close> lies in
  \<open>[0, 10)\<close>, and only a pending callback can run. \<open>step\<close> puts no condition on the
  times: when a timer fires, by the clock of \<^verbatim>\<open>Date.now()\<close>, is up to the runtime, and
  the code never reads the clock again to check it.
\<close>

datatype event =
    Submit real real string nat string
  | TimerFires real nat
  | SendEnds real real nat send_outcome

definition dropAt :: "nat \<Rightarrow> 'a list \<Rightarrow> 'a list" where
  "dropAt k xs = take k xs @ drop (Suc k) xs"

fun step :: "event \<Rightarrow> manager \<Rightarrow> manager option" where
  "step (Submit now jitter key n meth) m =
     (if 0 \<le> jitter \<and> jitter < 10
      then Some (submitTransaction now jitter key n meth (m\<lparr>clock := now\<rparr>))
      else None)"
| "step (TimerFires now k) m =
     (if k < length (pendings m) then
        (case pendings m ! k of
           Timer i t setAt delay \<Rightarrow>
             Some (timerCallback now i t (m\<lparr>clock := now, pendings := dropAt k (pendings m)\<rparr>))
         | Sending i t \<Rightarrow> None)
      else None)"
| "step (SendEnds now jitter k outcome) m =
     (if 0 \<le> jitter \<and> jitter < 10 \<and> k < length (pendings m) then
        (case pendings m ! k of
           Sending i t \<Rightarrow>
             Some (sendSettled now jitter i t outcome
                     (m\<lparr>clock := now, pendings := dropAt k (pendings m)\<rparr>))
         | Timer i t setAt delay \<Rightarrow> None)
      else None)"

fun run :: "event list \<Rightarrow> manager \<Rightarrow> manager option" where
  "run [] m = Some m"
| "run (e # es) m = (case step e m of None \<Rightarrow> None | Some m' \<Rightarrow> run es m')"

text \<open>
  How early a timer may fire is a property of the runtime and not of this code. A run is
  \<open>timely\<close> up to \<open>tol\<close> when none of its timers fires more than \<open>tol\<close> milliseconds
  before the time of the \<^verbatim>\<open>setTimeout\<close> call plus the delay asked for, both times as
  \<^verbatim>\<open>Date.now()\<close> gives them.
\<close>

fun firesOk :: "real \<Rightarrow> event \<Rightarrow> manager \<Rightarrow> bool" where
  "firesOk tol (TimerFires now k) m =
     (k < length (pendings m) \<and>
      (case pendings m ! k of
         Timer i t setAt delay \<Rightarrow> setAt + delay \<le> now + tol
       | Sending i t \<Rightarrow> True))"
| "firesOk tol (Submit now jitter key n meth) m = True"
| "firesOk tol (SendEnds now jitter k outcome) m = True"

fun timely :: "real \<Rightarrow> event list \<Rightarrow> manager \<Rightarrow> bool" where
  "timely tol [] m = True"
| "timely tol (e # es) m =
     (firesOk tol e m \<and> (case step e m of None \<Rightarrow> False | Some m' \<Rightarrow> timely tol es m'))"

text \<open>The times at which proxy \<open>i\<close> was stamped, oldest first.\<close>

fun dispatchTimes :: "nat \<Rightarrow> effect list \<Rightarrow> real list" where
  "dispatchTimes i [] = []"
| "dispatchTimes i (SetLastRequestTime j t # es) =
     (if j = i then t # dispatchTimes i es else dispatchTimes i es)"
| "dispatchTimes i (e # es) = dispatchTimes i es"

text \<open>Every two neighbours of the list are at least \<open>d\<close> apart.\<close>

fun spaced :: "real \<Rightarrow> real list \<Rightarrow> bool" where
  "spaced d (t1 # t2 # ts) = (t1 + d \<le> t2 \<and> spaced d (t2 # ts))"
| "spaced d ts = True"

text \<open>The tasks whose promise was resolved or rejected.\<close>

fun settledIds :: "effect list \<Rightarrow> nat list" where
  "settledIds [] = []"
| "settledIds (TaskResolve tid r # es) = tid # settledIds es"
| "settledIds (TaskReject tid e # es) = tid # settledIds es"
| "settledIds (e # es) = settledIds es"

text \<open>The tasks taken off a queue.\<close>

fun dequeuedIds :: "effect list \<Rightarrow> nat list" where
  "dequeuedIds [] = []"
| "dequeuedIds (Dequeue i tid # es) = tid # dequeuedIds es"
| "dequeuedIds (e # es) = dequeuedIds es"

subsection \<open>Invariants of the manager\<close>

fun proxyOf :: "pending \<Rightarrow> nat" where
  "proxyOf (Timer i t setAt delay) = i"
| "proxyOf (Sending i t) = i"

fun taskOf :: "pending \<Rightarrow> task" where
  "taskOf (Timer i t setAt delay) = t"
| "taskOf (Sending i t) = t"

text \<open>The number of pending callbacks of proxy \<open>i\<close>.\<close>

definition inFlight :: "manager \<Rightarrow> nat \<Rightarrow> nat" where
  "inFlight m i = length (filter (\<lambda>x. proxyOf x = i) (pendings m))"

text \<open>
  The cursor stays inside the list, every pending callback belongs to a proxy of the
  list, a proxy has one pending callback while \<^verbatim>\<open>isProcessing\<close> is set and none
  otherwise, a proxy is healthy exactly while its failure counter is below
  \<^verbatim>\<open>MAX_PROXY_FAILURES\<close>, and an unhealthy proxy is not processing.
\<close>

definition cursorOk :: "manager \<Rightarrow> bool" where
  "cursorOk m = (proxies m = [] \<or> currentProxyIndex m < length (proxies m))"

definition pendingsOk :: "manager \<Rightarrow> bool" where
  "pendingsOk m =
     ((\<forall>x \<in> set (pendings m). proxyOf x < length (proxies m)) \<and>
      (\<forall>i < length (proxies m).
         inFlight m i = (if isProcessing (proxies m ! i) then 1 else 0)))"

definition healthOk :: "manager \<Rightarrow> bool" where
  "healthOk m =
     (\<forall>i < length (proxies m).
        (isHealthy (proxies m ! i) \<longleftrightarrow> failureCount (proxies m ! i) < MAX_PROXY_FAILURES) \<and>
        (\<not> isHealthy (proxies m ! i) \<longrightarrow> \<not> isProcessing (proxies m ! i)))"

definition structOk :: "manager \<Rightarrow> bool" where
  "structOk m = (cursorOk m \<and> pendingsOk m \<and> healthOk m)"

text \<open>
  The delay of every pending timer is what \<^verbatim>\<open>_processQueue\<close> computes from the time of
  the \<^verbatim>\<open>setTimeout\<close> call and the proxy's \<^verbatim>\<open>lastRequestTime\<close>, plus a jitter in
  \<open>[0, 10)\<close>.
\<close>

fun waitOk :: "proxy list \<Rightarrow> pending \<Rightarrow> bool" where
  "waitOk ps (Timer i t setAt delay) =
     (let wait = max 0 (MIN_REQUEST_INTERVAL_MS - (setAt - lastRequestTime (ps ! i)))
      in wait \<le> delay \<and> delay < wait + 10)"
| "waitOk ps (Sending i t) = True"

definition waitsOk :: "manager \<Rightarrow> bool" where
  "waitsOk m = (\<forall>x \<in> set (pendings m). waitOk (proxies m) x)"

text \<open>
  The stamps of a proxy so far are at least \<open>MIN_REQUEST_INTERVAL_MS - tol\<close> apart, and
  the latest of them is the proxy's \<^verbatim>\<open>lastRequestTime\<close>.
\<close>

definition stampsOk :: "real \<Rightarrow> manager \<Rightarrow> bool" where
  "stampsOk tol m =
     (\<forall>i < length (proxies m).
        spaced (MIN_REQUEST_INTERVAL_MS - tol) (dispatchTimes i (trace m)) \<and>
        (dispatchTimes i (trace m) \<noteq> [] \<longrightarrow>
           last (dispatchTimes i (trace m)) = lastRequestTime (proxies m ! i)))"

text \<open>
  The tasks waiting in the queues, and the tasks of the pending callbacks, as multisets
  of task numbers.
\<close>

definition queuedIds :: "proxy list \<Rightarrow> nat multiset" where
  "queuedIds ps = sum_list (map (\<lambda>p. mset (map taskId (requestQueue p))) ps)"

definition pendingIds :: "pending list \<Rightarrow> nat multiset" where
  "pendingIds xs = mset (map (\<lambda>x. taskId (taskOf x)) xs)"

text \<open>The tasks whose send was started.\<close>

fun startedIds :: "effect list \<Rightarrow> nat list" where
  "startedIds [] = []"
| "startedIds (SendStart i tid # es) = tid # startedIds es"
| "startedIds (e # es) = startedIds es"

text \<open>
  Every task made so far is in exactly one place: in a queue, with a pending callback,
  or settled. A task that left a queue is with a pending callback or settled, a send
  was only started for a task that left a queue, and the task of a pending callback
  has left its queue.
\<close>

definition idsOk :: "manager \<Rightarrow> bool" where
  "idsOk m =
     (queuedIds (proxies m) + pendingIds (pendings m) + mset (settledIds (trace m))
        = mset [0..<nextTaskId m] \<and>
      mset (dequeuedIds (trace m)) \<subseteq># pendingIds (pendings m) + mset (settledIds (trace m)) \<and>
      set (startedIds (trace m)) \<subseteq> set (dequeuedIds (trace m)) \<and>
      pendingIds (pendings m) \<subseteq># mset (dequeuedIds (trace m)))"

subsection \<open>The branches of the handlers, named\<close>

text \<open>
  The guard of \<^verbatim>\<open>_processQueue\<close> lets the call through exactly when the proxy exists, is
  idle and healthy, and has a task waiting; \<open>scheduled\<close> is the state the call then
  leaves behind.
\<close>

definition scheduled :: "real \<Rightarrow> real \<Rightarrow> nat \<Rightarrow> manager \<Rightarrow> manager" where
  "scheduled now jitter i m =
     (let p = proxies m ! i; t = hd (requestQueue p);
          d = max 0 (MIN_REQUEST_INTERVAL_MS - (now - lastRequestTime p)) + jitter
      in emit [SetProcessing i True, Dequeue i (taskId t), SetTimeout i (taskId t) d]
           (updProxy i (\<lambda>p. p\<lparr>isProcessing := True, requestQueue := tl (requestQueue p)\<rparr>) m
              \<lparr>pendings := pendings m @ [Timer i t now d]\<rparr>))"

definition canProcess :: "nat \<Rightarrow> manager \<Rightarrow> bool" where
  "canProcess i m = (i < length (proxies m) \<and> \<not> isProcessing (proxies m ! i)
      \<and> isHealthy (proxies m ! i) \<and> requestQueue (proxies m ! i) \<noteq> [])"

text \<open>
  What the \<^verbatim>\<open>try\<close>, \<^verbatim>\<open>catch\<close> and \<^verbatim>\<open>finally\<close> blocks of
  \<^verbatim>\<open>_sendTransactionThroughProxy\<close> do to the proxy, the effects in the order of the
  statements, and the state before the \<^verbatim>\<open>finally\<close> block decides whether to call
  \<^verbatim>\<open>_processQueue\<close>.
\<close>

definition settledProxy :: "send_outcome \<Rightarrow> proxy \<Rightarrow> proxy" where
  "settledProxy outcome p =
     (case outcome of
        Sent receipt \<Rightarrow> p\<lparr>failureCount := 0, isHealthy := True, isProcessing := False\<rparr>
      | Threw error \<Rightarrow>
          p\<lparr>failureCount := failureCount p + 1,
            isHealthy := (if failureCount p + 1 \<ge> MAX_PROXY_FAILURES then False else isHealthy p),
            isProcessing := False\<rparr>)"

definition settleEffects :: "nat \<Rightarrow> task \<Rightarrow> send_outcome \<Rightarrow> proxy \<Rightarrow> effect list" where
  "settleEffects i t outcome p =
     (case outcome of
        Sent receipt \<Rightarrow>
          [SetFailureCount i 0, SetHealthy i True, TaskResolve (taskId t) receipt,
           SetProcessing i False]
      | Threw error \<Rightarrow>
          (if failureCount p + 1 \<ge> MAX_PROXY_FAILURES
           then [SetFailureCount i (failureCount p + 1), SetHealthy i False,
                 TaskReject (taskId t) error, SetProcessing i False]
           else [SetFailureCount i (failureCount p + 1), TaskReject (taskId t) error,
                 SetProcessing i False]))"

definition settledState :: "nat \<Rightarrow> task \<Rightarrow> send_outcome \<Rightarrow> manager \<Rightarrow> manager" where
  "settledState i t outcome m =
     emit (settleEffects i t outcome (proxies m ! i)) (updProxy i (settledProxy outcome) m)"

text \<open>The three invariants together.\<close>

definition allOk :: "manager \<Rightarrow> bool" where
  "allOk m = (structOk m \<and> waitsOk m \<and> idsOk m)"

subsection \<open>An example run\<close>

text \<open>
  One proxy and four submissions. The first three sends fail one after the other, which
  demotes the proxy while the fourth task is still in its queue.
\<close>

definition failingError :: err where
  "failingError = \<lparr>message = ''socket hang up'', reason = None, code = None\<rparr>"

definition twoFailures :: "event list" where
  "twoFailures =
     [Submit 1000 3 ''0xkey'' 7 ''0x05632f40'', Submit 1001 3 ''0xkey'' 8 ''0x05632f40'',
      Submit 1002 1 ''0xkey'' 9 ''0x05632f40'', Submit 1003 1 ''0xkey'' 10 ''0x05632f40'',
      TimerFires 1005 0, SendEnds 1200 2 0 (Threw failingError),
      TimerFires 1310 0, SendEnds 1400 2 0 (Threw failingError),
      TimerFires 1510 0]"

definition thirdFailure :: event where
  "thirdFailure = SendEnds 1600 2 0 (Threw failingError)"

definition afterTwoFailures :: manager where
  "afterTwoFailures = the (run twoFailures (ProxyManager 1))"

definition demoted :: manager where
  "demoted = the (step thirdFailure afterTwoFailures)"

definition laterEvents :: "event list" where
  "laterEvents = [Submit 1700 0 ''0xkey'' 11 ''0x05632f40'', Submit 1800 5 ''0xkey'' 11 ''0x05632f40'']"

text \<open>Three proxies of which only the middle one is healthy, the cursor on the last.\<close>

definition pool3 :: manager where
  "pool3 = \<lparr>proxies = [newProxy\<lparr>isHealthy := False, failureCount := 3\<rparr>, newProxy,
                       newProxy\<lparr>isHealthy := False, failureCount := 3\<rparr>],
            currentProxyIndex = 2, pendings = [], nextTaskId = 0, clock = 0, trace = []\<rparr>"

text \<open>A state with one send under way and one task waiting behind it.\<close>

definition sendingState :: manager where
  "sendingState = the (run [Submit 1000 3 ''0xkey'' 7 ''0x05632f40'',
                            Submit 1001 3 ''0xkey'' 8 ''0x05632f40'',
                            TimerFires 1005 0] (ProxyManager 1))"

definition task0 :: task where
  "task0 = \<lparr>taskId = 0, privateKey = ''0xkey'', nonce = 7, methodName = ''0x05632f40''\<rparr>"

text \<open>
  A run in which the timers fire as a runtime fires them that cuts the delay down to
  whole milliseconds and whose timer clock ticks up to a millisecond ahead of
  \<^verbatim>\<open>Date.now()\<close>: the first timer, asked for 3.7 ms at 1000, fires at 1003; the second,
  asked for 53.5 ms at 1050, fires at 1102.
\<close>

definition firstStamp :: "event list" where
  "firstStamp =
     [Submit 1000 (37 / 10) ''0xkey'' 7 ''0x05632f40'', Submit 1001 3 ''0xkey'' 8 ''0x05632f40'',
      TimerFires 1003 0]"

definition firstSendEnds :: event where
  "firstSendEnds = SendEnds 1050 (1 / 2) 0 (Sent ''0xabc'')"

definition earlyTimers :: "event list" where
  "earlyTimers = firstStamp @ [firstSendEnds, TimerFires 1102 0]"

definition sendUnderWay :: manager where
  "sendUnderWay = the (run firstStamp (ProxyManager 1))"

definition rearmed :: manager where
  "rearmed = the (step firstSendEnds sendUnderWay)"

definition stampedTwice :: manager where
  "stampedTwice = the (step (TimerFires 1102 0) rearmed)"

definition task1 :: task where
  "task1 = \<lparr>taskId = 1, privateKey = ''0xkey'', nonce = 8, methodName = ''0x05632f40''\<rparr>"

section \<open>The submission flow of \<^verbatim>\<open>mint.js\<close>\<close>

subsection \<open>Classifying an error\<close>

definition MAX_TRANSACTION_RETRIES :: nat where
  "MAX_TRANSACTION_RETRIES = 5"

text \<open>
  \<^verbatim>\<open>toLowerCase\<close> on the letters A to Z, and \<^verbatim>\<open>includes\<close> as the test for a
  contiguous substring. A character of a \<open>string\<close> is a byte, so letters outside ASCII
  are left as they are.
\<close>

definition lowerChar :: "char \<Rightarrow> char" where
  "lowerChar c =
     (let n = (of_char c :: nat)
      in if 65 \<le> n \<and> n \<le> 90 then char_of (n + 32) else c)"

definition toLowerCase :: "string \<Rightarrow> string" where
  "toLowerCase s = map lowerChar s"

definition includes_str :: "string \<Rightarrow> string \<Rightarrow> bool" where
  "includes_str s needle = sublist needle s"

text \<open>
  The three strings the \<^verbatim>\<open>catch\<close> block computes: \<^verbatim>\<open>err.message.toLowerCase()\<close>, and
  for \<^verbatim>\<open>err.reason\<close> and \<^verbatim>\<open>err.code\<close> the lowered string or the empty string when the
  field is missing.
\<close>

definition errorMessage :: "err \<Rightarrow> string" where
  "errorMessage e = toLowerCase (message e)"

definition errorReason :: "err \<Rightarrow> string" where
  "errorReason e = (case reason e of Some r \<Rightarrow> toLowerCase r | None \<Rightarrow> [])"

definition errorCode :: "err \<Rightarrow> string" where
  "errorCode e = (case code e of Some c \<Rightarrow> toLowerCase c | None \<Rightarrow> [])"

text \<open>The condition of the first \<^verbatim>\<open>if\<close> of the \<^verbatim>\<open>catch\<close> block: a nonce error.\<close>

definition isNonceError :: "err \<Rightarrow> bool" where
  "isNonceError e =
     (includes_str (errorMessage e) ''nonce too low''
      \<or> includes_str (errorMessage e) ''nonce has already been used''
      \<or> includes_str (errorMessage e) ''replacement transaction underpriced''
      \<or> includes_str (errorReason e) ''nonce''
      \<or> errorCode e = ''nonce_expired''
      \<or> errorCode e = ''-32003'')"

text \<open>
  The condition of the \<^verbatim>\<open>else if\<close>: an error worth waiting for. The \<^verbatim>\<open>main\<close> with the
  wallet lock knows five messages, the earlier \<^verbatim>\<open>main\<close> the first three.
\<close>

definition isRetryableError :: "err \<Rightarrow> bool" where
  "isRetryableError e =
     (includes_str (errorMessage e) ''txpool is full''
      \<or> includes_str (errorMessage e) ''exceeds block gas limit''
      \<or> includes_str (errorMessage e) ''insufficient funds''
      \<or> includes_str (errorMessage e) ''fee too low''
      \<or> includes_str (errorMessage e) ''transaction underpriced'')"

definition isRetryableErrorEarlier :: "err \<Rightarrow> bool" where
  "isRetryableErrorEarlier e =
     (includes_str (errorMessage e) ''txpool is full''
      \<or> includes_str (errorMessage e) ''exceeds block gas limit''
      \<or> includes_str (errorMessage e) ''insufficient funds'')"

subsection \<open>One wallet and the outside world\<close>

text \<open>
  What the flow of a wallet does that can be seen from outside: a call of
  \<^verbatim>\<open>proxyManager.submitTransaction\<close> with a nonce and whether its promise resolved, and a
  nonce taken over from \<^verbatim>\<open>fetchNonceViaQueue\<close>.
\<close>

datatype wevent = Submitted nat bool | Refetched nat

text \<open>
  \<^verbatim>\<open>walletInfo.currentNonce\<close>, the number of sends and of nonce fetches the wallet has
  awaited so far, and the events so far. The outside world is given by two functions:
  \<open>sends k\<close> is what awaiting the wallet's \<open>k\<close>-th \<^verbatim>\<open>submitTransaction\<close> gives, and
  \<open>fetches k\<close> is the nonce its \<open>k\<close>-th \<^verbatim>\<open>fetchNonceViaQueue\<close> resolves to, or \<open>None\<close>
  when that promise is rejected. The calls of \<^verbatim>\<open>delay\<close> change nothing and are left out.
\<close>

record wallet =
  currentNonce :: nat
  sendCount :: nat
  fetchCount :: nat
  walletLog :: "wevent list"

datatype flow_result = Succeeded | Failed

subsection \<open>The loops\<close>

text \<open>
  The inner loop \<^verbatim>\<open>for (nonceAttempt = 0; nonceAttempt < MAX_TRANSACTION_RETRIES; ...)\<close>.
  It returns \<^verbatim>\<open>nonceRefetched\<close>.
\<close>

function refetchLoop :: "(nat \<Rightarrow> nat option) \<Rightarrow> nat \<Rightarrow> wallet \<Rightarrow> bool \<times> wallet" where
  "refetchLoop fetches nonceAttempt w =
     (if nonceAttempt < MAX_TRANSACTION_RETRIES then
        (case fetches (fetchCount w) of
           Some newNonce \<Rightarrow>
             (True, w\<lparr>currentNonce := newNonce, fetchCount := fetchCount w + 1,
                      walletLog := walletLog w @ [Refetched newNonce]\<rparr>)
         | None \<Rightarrow> refetchLoop fetches (nonceAttempt + 1) (w\<lparr>fetchCount := fetchCount w + 1\<rparr>))
      else (False, w))"
  by pat_completeness auto
termination
  by (relation "measure (\<lambda>(fetches, nonceAttempt, w). MAX_TRANSACTION_RETRIES - nonceAttempt)") auto

text \<open>
  The outer loop \<^verbatim>\<open>for (attempt = 0; attempt < MAX_TRANSACTION_RETRIES; attempt++)\<close> of one
  logical submission. \<open>retryable\<close> is the condition of the \<^verbatim>\<open>else if\<close>. A \<^verbatim>\<open>continue\<close>
  and the fall through to the delay at the end of the \<^verbatim>\<open>catch\<close> block both lead to the
  next attempt; the \<^verbatim>\<open>throw\<close> on the last attempt, and the one after the loop, end the
  flow as \<open>Failed\<close>.
\<close>

function attemptLoop ::
    "(err \<Rightarrow> bool) \<Rightarrow> (nat \<Rightarrow> send_outcome) \<Rightarrow> (nat \<Rightarrow> nat option) \<Rightarrow> nat \<Rightarrow> wallet
       \<Rightarrow> flow_result \<times> wallet" where
  "attemptLoop retryable sends fetches attempt w =
     (if attempt < MAX_TRANSACTION_RETRIES then
        (case sends (sendCount w) of
           Sent receipt \<Rightarrow>
             (Succeeded,
              w\<lparr>currentNonce := currentNonce w + 1, sendCount := sendCount w + 1,
                walletLog := walletLog w @ [Submitted (currentNonce w) True]\<rparr>)
         | Threw e \<Rightarrow>
             (let w1 = w\<lparr>sendCount := sendCount w + 1,
                         walletLog := walletLog w @ [Submitted (currentNonce w) False]\<rparr>
              in if isNonceError e then
                   (let (nonceRefetched, w2) = refetchLoop fetches 0 w1
                    in if nonceRefetched \<and> attempt < MAX_TRANSACTION_RETRIES - 1
                       then attemptLoop retryable sends fetches (attempt + 1) w2
                       else if attempt \<ge> MAX_TRANSACTION_RETRIES - 1 then (Failed, w2)
                       else attemptLoop retryable sends fetches (attempt + 1) w2)
                 else if retryable e then
                   (if attempt < MAX_TRANSACTION_RETRIES - 1
                    then attemptLoop retryable sends fetches (attempt + 1) w1
                    else if attempt \<ge> MAX_TRANSACTION_RETRIES - 1 then (Failed, w1)
                    else attemptLoop retryable sends fetches (attempt + 1) w1)
                 else if attempt \<ge> MAX_TRANSACTION_RETRIES - 1 then (Failed, w1)
                 else attemptLoop retryable sends fetches (attempt + 1) w1))
      else (Failed, w))"
  by pat_completeness auto
termination
  by (relation "measure (\<lambda>(retryable, sends, fetches, attempt, w).
                   MAX_TRANSACTION_RETRIES - attempt)") auto

text \<open>
  The logical submissions of one wallet, one after the other, as the wallet lock runs
  them: \<open>k\<close> submissions, the results in order.
\<close>

fun runWallet ::
    "(err \<Rightarrow> bool) \<Rightarrow> (nat \<Rightarrow> send_outcome) \<Rightarrow> (nat \<Rightarrow> nat option) \<Rightarrow> nat \<Rightarrow> wallet
       \<Rightarrow> flow_result list \<times> wallet" where
  "runWallet retryable sends fetches 0 w = ([], w)"
| "runWallet retryable sends fetches (Suc k) w =
     (let (r, w1) = attemptLoop retryable sends fetches 0 w;
          (rs, w2) = runWallet retryable sends fetches k w1
      in (r # rs, w2))"

definition newWallet :: "nat \<Rightarrow> wallet" where
  "newWallet n = \<lparr>currentNonce = n, sendCount = 0, fetchCount = 0, walletLog = []\<rparr>"

text \<open>The nonces of the sends that succeeded, in order.\<close>

fun successNonces :: "wevent list \<Rightarrow> nat list" where
  "successNonces [] = []"
| "successNonces (Submitted n True # es) = n # successNonces es"
| "successNonces (e # es) = successNonces es"

text \<open>
  \<open>byOne prev es\<close>: in \<open>es\<close>, every successful send uses the nonce of the successful send
  before it plus one, unless a nonce was fetched in between. \<open>prev\<close> is the nonce of the
  last successful send before \<open>es\<close>, if no nonce was fetched since; \<open>lastSuccess\<close> is that
  nonce after \<open>es\<close>.
\<close>

fun byOne :: "nat option \<Rightarrow> wevent list \<Rightarrow> bool" where
  "byOne prev [] = True"
| "byOne prev (Submitted n True # es) =
     ((case prev of None \<Rightarrow> True | Some p \<Rightarrow> n = p + 1) \<and> byOne (Some n) es)"
| "byOne prev (Submitted n False # es) = byOne prev es"
| "byOne prev (Refetched n # es) = byOne None es"

fun lastSuccess :: "nat option \<Rightarrow> wevent list \<Rightarrow> nat option" where
  "lastSuccess prev [] = prev"
| "lastSuccess prev (Submitted n True # es) = lastSuccess (Some n) es"
| "lastSuccess prev (Submitted n False # es) = lastSuccess prev es"
| "lastSuccess prev (Refetched n # es) = lastSuccess None es"

subsection \<open>The branches of the outer loop, named\<close>

text \<open>
  The wallet after a failed send: the send is counted, and after a nonce error the inner
  loop has run. The wallet after a successful send: \<^verbatim>\<open>walletInfo.currentNonce++\<close>.
\<close>

definition afterFailure :: "(nat \<Rightarrow> nat option) \<Rightarrow> err \<Rightarrow> wallet \<Rightarrow> wallet" where
  "afterFailure fetches e w =
     (let w1 = w\<lparr>sendCount := sendCount w + 1,
                 walletLog := walletLog w @ [Submitted (currentNonce w) False]\<rparr>
      in if isNonceError e then snd (refetchLoop fetches 0 w1) else w1)"

definition afterSuccess :: "wallet \<Rightarrow> wallet" where
  "afterSuccess w =
     w\<lparr>currentNonce := currentNonce w + 1, sendCount := sendCount w + 1,
       walletLog := walletLog w @ [Submitted (currentNonce w) True]\<rparr>"

text \<open>
  The events of the wallet so far go up by one between successes with no fetch between
  them, and after a success the nonce is the nonce of that send plus one.
\<close>

definition walletOk :: "wallet \<Rightarrow> bool" where
  "walletOk w =
     (byOne None (walletLog w) \<and>
      (case lastSuccess None (walletLog w) of
         None \<Rightarrow> True
       | Some p \<Rightarrow> currentNonce w = p + 1))"

subsection \<open>Example worlds\<close>

definition nonceTooLow :: err where
  "nonceTooLow = \<lparr>message = ''Nonce too low'', reason = None, code = Some ''NONCE_EXPIRED''\<rparr>"

text \<open>Every send is refused for its nonce; every fetch succeeds.\<close>

definition alwaysConflict :: "nat \<Rightarrow> send_outcome" where
  "alwaysConflict k = Threw nonceTooLow"

definition fetchOk :: "nat \<Rightarrow> nat option" where
  "fetchOk k = Some (20 + k)"

text \<open>The first send succeeds, the second is refused for its nonce, the third succeeds;
  the provider reports nonce 12.\<close>

definition conflictBetween :: "nat \<Rightarrow> send_outcome" where
  "conflictBetween k = (if k = 1 then Threw nonceTooLow else Sent ''0xhash'')"

definition fetchTwelve :: "nat \<Rightarrow> nat option" where
  "fetchTwelve k = Some 12"

section \<open>The queue of nonce fetches\<close>

subsection \<open>Data\<close>

definition DIRECT_PROVIDER_CALL_INTERVAL_MS :: real where
  "DIRECT_PROVIDER_CALL_INTERVAL_MS = 100"

text \<open>
  An entry of \<^verbatim>\<open>directProviderNonceQueue\<close>: \<open>entryId\<close> stands for the pair
  \<^verbatim>\<open>resolve\<close>/\<^verbatim>\<open>reject\<close> of the promise \<^verbatim>\<open>fetchNonceViaQueue\<close> returns; \<^verbatim>\<open>attemptInfo\<close>
  is only logged and is left out.
\<close>

record entry =
  entryId :: nat
  walletAddress :: string

text \<open>
  A running \<^verbatim>\<open>processDirectNonceQueue\<close>, suspended at one of its two \<^verbatim>\<open>await\<close>s: in
  \<^verbatim>\<open>delay\<close> (entry, time of the call, delay asked for) or in
  \<^verbatim>\<open>directProvider.getTransactionCount\<close> (entry).
\<close>

datatype activation = Delaying entry real real | Calling entry

text \<open>What the code does to the queue and the provider, in the order it happens.\<close>

datatype qeffect =
    QPush nat
  | QShift nat
  | QCallStart nat real
  | QResolve nat nat
  | QReject nat

text \<open>
  The three module variables, the suspended invocations, and three fields that only
  observe the run: the number of promises made, the time of the latest event, and the
  effects so far.
\<close>

record fetcher =
  directProviderNonceQueue :: "entry list"
  isProcessingDirectNonceQueue :: bool
  lastDirectNonceCallTime :: real
  activations :: "activation list"
  nextEntryId :: nat
  fclock :: real
  ftrace :: "qeffect list"

definition newFetcher :: fetcher where
  "newFetcher = \<lparr>directProviderNonceQueue = [], isProcessingDirectNonceQueue = False,
       lastDirectNonceCallTime = 0, activations = [], nextEntryId = 0, fclock = 0,
       ftrace = []\<rparr>"

subsection \<open>\<^verbatim>\<open>processDirectNonceQueue\<close> and \<^verbatim>\<open>fetchNonceViaQueue\<close>\<close>

text \<open>
  The call up to its first \<^verbatim>\<open>await\<close>. When the last call is long enough ago the call
  to the provider is made at once; otherwise the invocation first sleeps.
\<close>

definition processDirectNonceQueue :: "real \<Rightarrow> fetcher \<Rightarrow> fetcher" where
  "processDirectNonceQueue now f =
     (case directProviderNonceQueue f of
        [] \<Rightarrow> f
      | e # q \<Rightarrow>
          if isProcessingDirectNonceQueue f then f
          else
            (let f1 = f\<lparr>isProcessingDirectNonceQueue := True, directProviderNonceQueue := q,
                        ftrace := ftrace f @ [QShift (entryId e)]\<rparr>;
                 timeSinceLastCall = now - lastDirectNonceCallTime f
             in if timeSinceLastCall < DIRECT_PROVIDER_CALL_INTERVAL_MS
                then f1\<lparr>activations := activations f1 @
                          [Delaying e now (DIRECT_PROVIDER_CALL_INTERVAL_MS - timeSinceLastCall)]\<rparr>
                else f1\<lparr>activations := activations f1 @ [Calling e],
                        ftrace := ftrace f1 @ [QCallStart (entryId e) now]\<rparr>))"

text \<open>The invocation wakes up from \<^verbatim>\<open>delay\<close> and calls the provider.\<close>

definition delayDone :: "real \<Rightarrow> entry \<Rightarrow> fetcher \<Rightarrow> fetcher" where
  "delayDone now e f =
     f\<lparr>activations := activations f @ [Calling e],
       ftrace := ftrace f @ [QCallStart (entryId e) now]\<rparr>"

text \<open>
  The provider's answer arrives: a nonce, or an error (\<open>None\<close>). Either way the time is
  noted and the promise settled; the \<^verbatim>\<open>finally\<close> block clears the flag and starts the
  next entry.
\<close>

definition callDone :: "real \<Rightarrow> entry \<Rightarrow> nat option \<Rightarrow> fetcher \<Rightarrow> fetcher" where
  "callDone now e answer f =
     (let f1 = f\<lparr>lastDirectNonceCallTime := now,
                 ftrace := ftrace f @
                   [case answer of Some n \<Rightarrow> QResolve (entryId e) n | None \<Rightarrow> QReject (entryId e)]\<rparr>;
          f2 = f1\<lparr>isProcessingDirectNonceQueue := False\<rparr>
      in if directProviderNonceQueue f2 \<noteq> [] then processDirectNonceQueue now f2 else f2)"

definition fetchNonceViaQueue :: "real \<Rightarrow> string \<Rightarrow> fetcher \<Rightarrow> fetcher" where
  "fetchNonceViaQueue now addr f =
     (let e = \<lparr>entryId = nextEntryId f, walletAddress = addr\<rparr>;
          f1 = f\<lparr>directProviderNonceQueue := directProviderNonceQueue f @ [e],
                 nextEntryId := nextEntryId f + 1,
                 ftrace := ftrace f @ [QPush (entryId e)]\<rparr>
      in if \<not> isProcessingDirectNonceQueue f1 then processDirectNonceQueue now f1 else f1)"

subsection \<open>Runs of the queue\<close>

text \<open>
  A flow asks for a nonce, a sleeping invocation wakes up, or the provider answers. Every
  event carries the value \<^verbatim>\<open>Date.now()\<close> returns while its handler runs. \<open>qstep\<close> is
  \<open>None\<close> only when no such invocation is suspended; it puts no condition on the times:
  when \<^verbatim>\<open>delay\<close> ends, by the clock of \<^verbatim>\<open>Date.now()\<close>, is up to the runtime, and the
  code does not read the clock again after the wait.
\<close>

datatype qevent =
    Fetch real string
  | Wakes real nat
  | Answers real nat "nat option"

fun qstep :: "qevent \<Rightarrow> fetcher \<Rightarrow> fetcher option" where
  "qstep (Fetch now addr) f = Some (fetchNonceViaQueue now addr (f\<lparr>fclock := now\<rparr>))"
| "qstep (Wakes now k) f =
     (if k < length (activations f) then
        (case activations f ! k of
           Delaying e setAt d \<Rightarrow>
             Some (delayDone now e (f\<lparr>fclock := now, activations := dropAt k (activations f)\<rparr>))
         | Calling e \<Rightarrow> None)
      else None)"
| "qstep (Answers now k answer) f =
     (if k < length (activations f) then
        (case activations f ! k of
           Calling e \<Rightarrow>
             Some (callDone now e answer (f\<lparr>fclock := now, activations := dropAt k (activations f)\<rparr>))
         | Delaying e setAt d \<Rightarrow> None)
      else None)"

fun qrun :: "qevent list \<Rightarrow> fetcher \<Rightarrow> fetcher option" where
  "qrun [] f = Some f"
| "qrun (e # es) f = (case qstep e f of None \<Rightarrow> None | Some f' \<Rightarrow> qrun es f')"

text \<open>
  A run is timely up to \<open>tol\<close> when \<^verbatim>\<open>Date.now()\<close> never goes back from one event to the
  next and no \<^verbatim>\<open>delay\<close> ends more than \<open>tol\<close> milliseconds before the time of its call
  plus the delay asked for.
\<close>

fun wakesOk :: "real \<Rightarrow> qevent \<Rightarrow> fetcher \<Rightarrow> bool" where
  "wakesOk tol (Fetch now addr) f = (fclock f \<le> now)"
| "wakesOk tol (Wakes now k) f =
     (fclock f \<le> now \<and> k < length (activations f) \<and>
      (case activations f ! k of
         Delaying e setAt d \<Rightarrow> setAt + d \<le> now + tol
       | Calling e \<Rightarrow> True))"
| "wakesOk tol (Answers now k answer) f = (fclock f \<le> now)"

fun qtimely :: "real \<Rightarrow> qevent list \<Rightarrow> fetcher \<Rightarrow> bool" where
  "qtimely tol [] f = True"
| "qtimely tol (e # es) f =
     (wakesOk tol e f \<and> (case qstep e f of None \<Rightarrow> False | Some f' \<Rightarrow> qtimely tol es f'))"

subsection \<open>What a run shows\<close>

fun isCalling :: "activation \<Rightarrow> bool" where
  "isCalling (Calling e) = True"
| "isCalling (Delaying e setAt d) = False"

text \<open>The number of calls to the provider that are under way.\<close>

definition callsInFlight :: "fetcher \<Rightarrow> nat" where
  "callsInFlight f = length (filter isCalling (activations f))"

fun pushedIds :: "qeffect list \<Rightarrow> nat list" where
  "pushedIds [] = []"
| "pushedIds (QPush i # es) = i # pushedIds es"
| "pushedIds (e # es) = pushedIds es"

fun shiftedIds :: "qeffect list \<Rightarrow> nat list" where
  "shiftedIds [] = []"
| "shiftedIds (QShift i # es) = i # shiftedIds es"
| "shiftedIds (e # es) = shiftedIds es"

fun calledIds :: "qeffect list \<Rightarrow> nat list" where
  "calledIds [] = []"
| "calledIds (QCallStart i t # es) = i # calledIds es"
| "calledIds (e # es) = calledIds es"

fun callTimes :: "qeffect list \<Rightarrow> real list" where
  "callTimes [] = []"
| "callTimes (QCallStart i t # es) = t # callTimes es"
| "callTimes (e # es) = callTimes es"

fun answeredIds :: "qeffect list \<Rightarrow> nat list" where
  "answeredIds [] = []"
| "answeredIds (QResolve i n # es) = i # answeredIds es"
| "answeredIds (QReject i # es) = i # answeredIds es"
| "answeredIds (e # es) = answeredIds es"

text \<open>The entries of the sleeping invocations, and of the calling ones.\<close>

fun sleepingIds :: "activation list \<Rightarrow> nat list" where
  "sleepingIds [] = []"
| "sleepingIds (Delaying e setAt d # xs) = entryId e # sleepingIds xs"
| "sleepingIds (Calling e # xs) = sleepingIds xs"

fun callingIds :: "activation list \<Rightarrow> nat list" where
  "callingIds [] = []"
| "callingIds (Calling e # xs) = entryId e # callingIds xs"
| "callingIds (Delaying e setAt d # xs) = callingIds xs"

subsection \<open>Invariants of the queue\<close>

text \<open>
  One invocation is suspended while the flag is set, none otherwise. The entries leave
  the queue, reach the provider and are answered in the order they were pushed.
\<close>

definition flagOk :: "fetcher \<Rightarrow> bool" where
  "flagOk f = (length (activations f) = (if isProcessingDirectNonceQueue f then 1 else 0))"

definition fifoOk :: "fetcher \<Rightarrow> bool" where
  "fifoOk f =
     (pushedIds (ftrace f) = shiftedIds (ftrace f) @ map entryId (directProviderNonceQueue f) \<and>
      shiftedIds (ftrace f) = calledIds (ftrace f) @ sleepingIds (activations f) \<and>
      calledIds (ftrace f) = answeredIds (ftrace f) @ callingIds (activations f))"

definition queueOk :: "fetcher \<Rightarrow> bool" where
  "queueOk f = (flagOk f \<and> fifoOk f)"

text \<open>
  The calls so far are at least \<open>DIRECT_PROVIDER_CALL_INTERVAL_MS - tol\<close> apart and none
  lies in the future. While no call is under way, none is later than
  \<^verbatim>\<open>lastDirectNonceCallTime\<close>, and a sleeping invocation is due no earlier than the
  interval after it.
\<close>

fun sleepOk :: "real \<Rightarrow> activation \<Rightarrow> bool" where
  "sleepOk lastCall (Delaying e setAt d) = (lastCall + DIRECT_PROVIDER_CALL_INTERVAL_MS \<le> setAt + d)"
| "sleepOk lastCall (Calling e) = True"

definition spacingOk :: "real \<Rightarrow> fetcher \<Rightarrow> bool" where
  "spacingOk tol f =
     (spaced (DIRECT_PROVIDER_CALL_INTERVAL_MS - tol) (callTimes (ftrace f)) \<and>
      (\<forall>t \<in> set (callTimes (ftrace f)). t \<le> fclock f) \<and>
      (\<forall>x \<in> set (activations f). sleepOk (lastDirectNonceCallTime f) x) \<and>
      (callsInFlight f = 0 \<longrightarrow>
         (\<forall>t \<in> set (callTimes (ftrace f)). t \<le> lastDirectNonceCallTime f)))"

definition fetcherOk :: "real \<Rightarrow> fetcher \<Rightarrow> bool" where
  "fetcherOk tol f = (flagOk f \<and> fifoOk f \<and> spacingOk tol f)"

subsection \<open>Example runs of the queue\<close>

text \<open>
  Three fetches; both waits end one millisecond before they are due by \<^verbatim>\<open>Date.now()\<close>.
\<close>

definition threeFetches :: "qevent list" where
  "threeFetches =
     [Fetch 1000 ''0xaaa'', Fetch 1010 ''0xbbb'', Fetch 1020 ''0xaaa'',
      Answers 1050 0 (Some 7), Wakes 1149 0, Answers 1400 0 None, Wakes 1499 0]"

definition afterThreeFetches :: fetcher where
  "afterThreeFetches = the (qrun threeFetches newFetcher)"

text \<open>
  Two fetches in the same millisecond; the provider answers the first within that
  millisecond, and the wait of 100 ms before the second call ends when \<^verbatim>\<open>Date.now()\<close> is
  1099.
\<close>

definition earlyWake :: "qevent list" where
  "earlyWake =
     [Fetch 1000 ''0xaaa'', Fetch 1000 ''0xbbb'', Answers 1000 0 (Some 7), Wakes 1099 0]"
section \<open>The wallet lock\<close>

subsection \<open>Data\<close>

text \<open>
  An invocation of \<^verbatim>\<open>withWalletLock\<close> is known by its number, and so is the
  \<^verbatim>\<open>lockPromise\<close> it makes (an invocation makes at most one). Between two \<^verbatim>\<open>await\<close>s an
  invocation is suspended in the loop on the promise of invocation \<open>j\<close>, or inside
  \<^verbatim>\<open>operation()\<close>, or it has returned. \<open>Entering\<close> is an invocation that was just
  called and is about to test the loop.
\<close>

datatype lock_pc = Entering | Awaiting nat | Holding | Returned

record invocation =
  lockAddress :: string
  pc :: lock_pc

text \<open>Taking the lock, a step of \<^verbatim>\<open>operation()\<close>, and releasing the lock: invocation
  and wallet.\<close>

datatype leffect = Acquire nat string | Touch nat string | Release nat string

text \<open>
  \<^verbatim>\<open>walletLocks\<close> maps a wallet to the promise stored for it, that is to the invocation
  that made the promise. \<open>released\<close> lists the promises whose \<^verbatim>\<open>releaseLock\<close> was
  called.
\<close>

record locks =
  walletLocks :: "string \<Rightarrow> nat option"
  released :: "nat list"
  invocations :: "invocation list"
  ltrace :: "leffect list"

definition newLocks :: locks where
  "newLocks = \<lparr>walletLocks = (\<lambda>a. None), released = [], invocations = [], ltrace = []\<rparr>"

subsection \<open>\<^verbatim>\<open>withWalletLock\<close>, from \<^verbatim>\<open>await\<close> to \<^verbatim>\<open>await\<close>\<close>

text \<open>
  The test of the \<^verbatim>\<open>while\<close> loop, run when the function is called and whenever the
  awaited promise has settled. If the map has the wallet, the invocation awaits the
  stored promise. Otherwise it stores its own promise and calls \<^verbatim>\<open>operation()\<close>; nothing
  else runs between the test and the \<^verbatim>\<open>set\<close>.
\<close>

definition enterLoop :: "nat \<Rightarrow> locks \<Rightarrow> locks" where
  "enterLoop k s =
     (let a = lockAddress (invocations s ! k) in
      case walletLocks s a of
        Some j \<Rightarrow> s\<lparr>invocations := (invocations s)[k := (invocations s ! k)\<lparr>pc := Awaiting j\<rparr>]\<rparr>
      | None \<Rightarrow>
          s\<lparr>walletLocks := (walletLocks s)(a := Some k),
            invocations := (invocations s)[k := (invocations s ! k)\<lparr>pc := Holding\<rparr>],
            ltrace := ltrace s @ [Acquire k a]\<rparr>)"

text \<open>A call of \<^verbatim>\<open>withWalletLock(walletAddress, operation)\<close>.\<close>

definition withWalletLock :: "string \<Rightarrow> locks \<Rightarrow> locks" where
  "withWalletLock a s =
     enterLoop (length (invocations s))
       (s\<lparr>invocations := invocations s @ [\<lparr>lockAddress = a, pc = Entering\<rparr>]\<rparr>)"

text \<open>
  One step of \<^verbatim>\<open>operation()\<close> between two of its \<^verbatim>\<open>await\<close>s: a send is submitted, or the
  wallet's nonce is written.
\<close>

definition operationStep :: "nat \<Rightarrow> locks \<Rightarrow> locks" where
  "operationStep k s = s\<lparr>ltrace := ltrace s @ [Touch k (lockAddress (invocations s ! k))]\<rparr>"

text \<open>The \<^verbatim>\<open>finally\<close> block, after \<^verbatim>\<open>operation()\<close> has returned or thrown.\<close>

definition releaseLock :: "nat \<Rightarrow> locks \<Rightarrow> locks" where
  "releaseLock k s =
     (let a = lockAddress (invocations s ! k) in
      s\<lparr>walletLocks := (walletLocks s)(a := None),
        released := released s @ [k],
        invocations := (invocations s)[k := (invocations s ! k)\<lparr>pc := Returned\<rparr>],
        ltrace := ltrace s @ [Release k a]\<rparr>)"

subsection \<open>Runs of the lock\<close>

text \<open>
  The dispatcher calls \<^verbatim>\<open>withWalletLock\<close> for a wallet, a waiting invocation is resumed
  once the promise it awaits is released, an invocation inside \<^verbatim>\<open>operation()\<close> makes a
  step, or its operation ends. Waiting invocations may be resumed in any order.
\<close>

datatype levent = Calls string | Resumes nat | Works nat | Ends nat

fun lstep :: "levent \<Rightarrow> locks \<Rightarrow> locks option" where
  "lstep (Calls a) s = Some (withWalletLock a s)"
| "lstep (Resumes k) s =
     (if k < length (invocations s) then
        (case pc (invocations s ! k) of
           Awaiting j \<Rightarrow> if j \<in> set (released s) then Some (enterLoop k s) else None
         | Entering \<Rightarrow> None
         | Holding \<Rightarrow> None
         | Returned \<Rightarrow> None)
      else None)"
| "lstep (Works k) s =
     (if k < length (invocations s) \<and> pc (invocations s ! k) = Holding
      then Some (operationStep k s) else None)"
| "lstep (Ends k) s =
     (if k < length (invocations s) \<and> pc (invocations s ! k) = Holding
      then Some (releaseLock k s) else None)"

fun lrun :: "levent list \<Rightarrow> locks \<Rightarrow> locks option" where
  "lrun [] s = Some s"
| "lrun (e # es) s = (case lstep e s of None \<Rightarrow> None | Some s' \<Rightarrow> lrun es s')"

text \<open>
  \<open>serial a h es\<close> follows the effects on wallet \<open>a\<close>, starting with holder \<open>h\<close>: the lock
  is only taken when nobody holds it, and only the holder works on the wallet or
  releases the lock. The result is the holder at the end, or \<open>None\<close> when an effect
  breaks this.
\<close>

fun serial :: "string \<Rightarrow> nat option \<Rightarrow> leffect list \<Rightarrow> nat option option" where
  "serial a h [] = Some h"
| "serial a h (Acquire k b # es) =
     (if b = a then (if h = None then serial a (Some k) es else None) else serial a h es)"
| "serial a h (Touch k b # es) =
     (if b = a then (if h = Some k then serial a h es else None) else serial a h es)"
| "serial a h (Release k b # es) =
     (if b = a then (if h = Some k then serial a None es else None) else serial a h es)"

text \<open>The invocations that are inside \<^verbatim>\<open>operation()\<close> for wallet \<open>a\<close>.\<close>

definition holders :: "locks \<Rightarrow> string \<Rightarrow> nat list" where
  "holders s a =
     filter (\<lambda>k. lockAddress (invocations s ! k) = a \<and> pc (invocations s ! k) = Holding)
       [0..<length (invocations s)]"

text \<open>
  The invocation stored in the map for a wallet is inside \<^verbatim>\<open>operation()\<close> for that
  wallet, an invocation inside \<^verbatim>\<open>operation()\<close> is the one stored for its wallet, and the
  effects so far are serial and end with the stored invocation as holder.
\<close>

definition lockOk :: "locks \<Rightarrow> bool" where
  "lockOk s =
     ((\<forall>k < length (invocations s).
         pc (invocations s ! k) = Holding \<longrightarrow>
           walletLocks s (lockAddress (invocations s ! k)) = Some k) \<and>
      (\<forall>a k. walletLocks s a = Some k \<longrightarrow>
           k < length (invocations s) \<and> lockAddress (invocations s ! k) = a
           \<and> pc (invocations s ! k) = Holding) \<and>
      (\<forall>a. serial a None (ltrace s) = Some (walletLocks s a)))"

subsection \<open>An example run of the lock\<close>

definition twoCallers :: "levent list" where
  "twoCallers =
     [Calls ''0xaaa'', Calls ''0xaaa'', Calls ''0xbbb'', Works 0, Works 2, Ends 0,
      Resumes 1, Works 1]"

definition afterTwoCallers :: locks where
  "afterTwoCallers = the (lrun twoCallers newLocks)"

section \<open>The earlier \<^verbatim>\<open>main\<close>: dispatch without the lock\<close>

text \<open>
  The earlier \<^verbatim>\<open>main\<close> of \<^verbatim>\<open>mint.js\<close> walks \<open>i\<close> from 0 to
  \<^verbatim>\<open>TOTAL_TRANSACTIONS_TO_SEND - 1\<close>, sleeps 25 ms, and starts the flow of transaction
  \<open>i\<close> for wallet \<^verbatim>\<open>i % activeWallets.length\<close> without awaiting it. A flow is started
  by calling the async function, which runs up to its first \<^verbatim>\<open>await\<close>, the one on
  \<^verbatim>\<open>proxyManager.submitTransaction\<close>. The state is the loop index and, per flow started,
  its wallet and whether it is still running.
\<close>

definition TOTAL_TRANSACTIONS_TO_SEND_earlier :: nat where
  "TOTAL_TRANSACTIONS_TO_SEND_earlier = 100"

record earlier =
  loopIndex :: nat
  flows :: "(nat \<times> bool) list"

definition newEarlier :: earlier where
  "newEarlier = \<lparr>loopIndex = 0, flows = []\<rparr>"

text \<open>One turn of the loop for \<open>n\<close> active wallets, and the end of flow \<open>k\<close>.\<close>

definition dispatchNext :: "nat \<Rightarrow> earlier \<Rightarrow> earlier option" where
  "dispatchNext n e =
     (if n = 0 \<or> loopIndex e \<ge> TOTAL_TRANSACTIONS_TO_SEND_earlier then None
      else Some (e\<lparr>loopIndex := loopIndex e + 1,
                   flows := flows e @ [(loopIndex e mod n, True)]\<rparr>))"

definition flowEnds :: "nat \<Rightarrow> earlier \<Rightarrow> earlier option" where
  "flowEnds k e =
     (if k < length (flows e) \<and> snd (flows e ! k)
      then Some (e\<lparr>flows := (flows e)[k := (fst (flows e ! k), False)]\<rparr>)
      else None)"

text \<open>The flows of wallet \<open>w\<close> that are running.\<close>

definition runningFor :: "nat \<Rightarrow> earlier \<Rightarrow> nat" where
  "runningFor w e = length (filter (\<lambda>(w', running). w' = w \<and> running) (flows e))"

section \<open>Properties of the dispatcher's partition\<close>

lemma innerDispatch_min: "innerDispatch tot k overall = min k (tot - overall)"
  by (induction k arbitrary: overall) auto

lemma assigned_Cons: "assigned (d # ds) i = (if i = 0 then d else assigned ds (i - 1))"
  by (cases i) (auto simp: assigned_def)

lemma walletLoop_step:
  assumes "tot = overall + base * Suc (length ws) + rmd" "rmd \<le> Suc (length ws)"
  defines "t \<equiv> (if rmd > 0 then base + 1 else base)"
  defines "r \<equiv> (if rmd > 0 then rmd - 1 else rmd)"
  shows "walletLoop tot base rmd overall (w # ws) =
           (if t = 0 then 0 # walletLoop tot base r overall ws
            else if base * length ws + r = 0 then [t]
            else t # walletLoop tot base r (overall + t) ws)"
    and "tot = (overall + t) + base * length ws + r" and "r \<le> length ws"
proof -
  have d: "innerDispatch tot t overall = t"
    using assms by (auto simp: innerDispatch_min)
  show eq: "tot = (overall + t) + base * length ws + r"
    using assms by (auto split: if_splits)
  show "r \<le> length ws" using assms by auto
  have "overall + t \<ge> tot \<longleftrightarrow> base * length ws + r = 0"
    using eq by linarith
  then show "walletLoop tot base rmd overall (w # ws) =
           (if t = 0 then 0 # walletLoop tot base r overall ws
            else if base * length ws + r = 0 then [t]
            else t # walletLoop tot base r (overall + t) ws)"
    using d unfolding t_def r_def by (simp add: Let_def)
qed

lemma walletLoop_assigned:
  "tot = overall + base * length ws + rmd \<Longrightarrow> rmd \<le> length ws \<Longrightarrow> i < length ws \<Longrightarrow>
   assigned (walletLoop tot base rmd overall ws) i = base + (if i < rmd then 1 else 0)"
proof (induction ws arbitrary: rmd overall i)
  case Nil
  then show ?case by simp
next
  case (Cons w ws)
  define t where "t = (if rmd > 0 then base + 1 else base)"
  define r where "r = (if rmd > 0 then rmd - 1 else rmd)"
  have p: "tot = overall + base * Suc (length ws) + rmd" "rmd \<le> Suc (length ws)"
    using Cons.prems by simp_all
  note st = walletLoop_step(1)[OF p, of w, folded t_def r_def]
    walletLoop_step(2,3)[OF p, folded t_def r_def]
  show ?case
  proof (cases i)
    case 0
    then show ?thesis using st(1) by (auto simp: assigned_Cons t_def)
  next
    case (Suc j)
    then have j: "j < length ws" using Cons.prems by simp
    show ?thesis
    proof (cases "t = 0")
      case True
      then have z: "base = 0" "rmd = 0" "r = 0" by (auto simp: t_def r_def split: if_splits)
      have "tot = overall + base * length ws + r" using z p by simp
      from Cons.IH[OF this st(3) j] show ?thesis
        using st(1) True Suc z by (simp add: assigned_Cons)
    next
      case False
      show ?thesis
      proof (cases "base * length ws + r = 0")
        case True
        then have "base = 0" "r = 0" using j by auto
        then show ?thesis using st(1) False True Suc
          by (auto simp: assigned_def r_def split: if_splits)
      next
        case nz: False
        from Cons.IH[OF st(2) st(3) j] show ?thesis
          using st(1) False nz Suc by (auto simp: assigned_Cons r_def split: if_splits)
      qed
    qed
  qed
qed

lemma walletLoop_sum:
  "tot = overall + base * length ws + rmd \<Longrightarrow> rmd \<le> length ws \<Longrightarrow>
   sum_list (walletLoop tot base rmd overall ws) = tot - overall"
proof (induction ws arbitrary: rmd overall)
  case Nil
  then show ?case by simp
next
  case (Cons w ws)
  define t where "t = (if rmd > 0 then base + 1 else base)"
  define r where "r = (if rmd > 0 then rmd - 1 else rmd)"
  have p: "tot = overall + base * Suc (length ws) + rmd" "rmd \<le> Suc (length ws)"
    using Cons.prems by simp_all
  note st = walletLoop_step(1)[OF p, of w, folded t_def r_def]
    walletLoop_step(2,3)[OF p, folded t_def r_def]
  show ?case
  proof (cases "t = 0")
    case True
    then have z: "base = 0" "rmd = 0" "r = 0" by (auto simp: t_def r_def split: if_splits)
    have "tot = overall + base * length ws + r" using z p by simp
    from Cons.IH[OF this st(3)] show ?thesis using st(1) True by simp
  next
    case False
    show ?thesis
    proof (cases "base * length ws + r = 0")
      case True
      then show ?thesis using st(1) st(2) False by simp
    next
      case nz: False
      from Cons.IH[OF st(2) st(3)] show ?thesis using st(1) st(2) False nz by simp
    qed
  qed
qed

lemma roundRobin_count:
  "k < n \<Longrightarrow> count_list (roundRobinTargets tot n) k = tot div n + (if k < tot mod n then 1 else 0)"
proof (induction tot)
  case 0
  then show ?case by (simp add: roundRobinTargets_def)
next
  case (Suc t)
  have "roundRobinTargets (Suc t) n = roundRobinTargets t n @ [t mod n]"
    by (simp add: roundRobinTargets_def)
  then show ?case using Suc
    by (auto simp: div_Suc mod_Suc split: if_splits)
qed

lemma walletLoop_five:
  "length ws = 5 \<Longrightarrow> walletLoop 17 3 2 0 ws = [4, 4, 3, 3, 3]"
  by (auto simp: length_Suc_conv eval_nat_numeral Let_def)

text \<open>
  Claim C9. For every list of \<open>N \<ge> 1\<close> active wallets and every target \<open>T\<close>, the
  dispatcher's partition gives wallet \<open>k\<close> exactly \<open>T div N\<close> submissions, plus one when
  \<open>k < T mod N\<close>, and the counts sum to \<open>T\<close>. The safety break never cuts a wallet
  short. The earlier round-robin \<^verbatim>\<open>i % N\<close> gives every wallet the same count. For
  \<open>T = 17\<close> and \<open>N = 5\<close> the counts are \<open>[4, 4, 3, 3, 3]\<close>.
\<close>

theorem partition_sums:
  assumes "activeWallets \<noteq> []"
  shows "\<exists>ds. dispatchCounts tot activeWallets = Some ds
      \<and> map (assigned ds) [0..<length activeWallets]
          = map (\<lambda>k. tot div length activeWallets + (if k < tot mod length activeWallets then 1 else 0))
              [0..<length activeWallets]
      \<and> sum_list ds = tot
      \<and> map (count_list (roundRobinTargets tot (length activeWallets))) [0..<length activeWallets]
          = map (assigned ds) [0..<length activeWallets]
      \<and> (if length activeWallets = 5 \<and> tot = 17 then ds = [4, 4, 3, 3, 3] else True)"
proof -
  let ?n = "length activeWallets"
  let ?ds = "walletLoop tot (tot div ?n) (tot mod ?n) 0 activeWallets"
  have n: "?n > 0" using assms by simp
  have e: "tot = 0 + (tot div ?n) * ?n + tot mod ?n" by simp
  have r: "tot mod ?n \<le> ?n" using n by (simp add: less_imp_le)
  have a: "map (assigned ?ds) [0..<?n]
          = map (\<lambda>k. tot div ?n + (if k < tot mod ?n then 1 else 0)) [0..<?n]"
    using walletLoop_assigned[OF e r] by simp
  have s: "sum_list ?ds = tot" using walletLoop_sum[OF e r] by simp
  have c: "map (count_list (roundRobinTargets tot ?n)) [0..<?n]
          = map (\<lambda>k. tot div ?n + (if k < tot mod ?n then 1 else 0)) [0..<?n]"
    using roundRobin_count[of _ ?n tot] by simp
  have f: "?n = 5 \<and> tot = 17 \<Longrightarrow> ?ds = [4, 4, 3, 3, 3]"
    using walletLoop_five[of activeWallets] by simp
  show ?thesis using n a s c f by (simp add: dispatchCounts_def)
qed

theorem partition_sums_witness:
  "dispatchCounts 17 [0::nat, 1, 2, 3, 4] = Some [4, 4, 3, 3, 3]
   \<and> sum_list (the (dispatchCounts 17 [0::nat, 1, 2, 3, 4])) = 17"
proof -
  have h: "[0::nat, 1, 2, 3, 4] \<noteq> []" by simp
  from partition_sums[OF h, of 17] obtain ds where
    "dispatchCounts 17 [0::nat, 1, 2, 3, 4] = Some ds" "sum_list ds = 17" "ds = [4, 4, 3, 3, 3]"
    by auto
  then show ?thesis by simp
qed

section \<open>Properties of the proxy manager\<close>

subsection \<open>Selection\<close>

declare selectLoop.simps [simp del]

lemma selectLoop_frame:
  "selectLoop i m = (r, m') \<Longrightarrow>
     proxies m' = proxies m \<and> pendings m' = pendings m \<and> nextTaskId m' = nextTaskId m
     \<and> clock m' = clock m \<and> trace m' = trace m"
proof (induction i m rule: selectLoop.induct)
  case (1 i m)
  show ?case
  proof (cases "i < length (proxies m)")
    case False
    then show ?thesis using "1.prems" by (simp add: selectLoop.simps)
  next
    case True
    let ?m' = "m\<lparr>currentProxyIndex := (currentProxyIndex m + 1) mod length (proxies m)\<rparr>"
    show ?thesis
    proof (cases "currentProxyIndex m < length (proxies m) \<and> \<not> isHealthy (proxies m ! currentProxyIndex m)")
      case True
      then have "selectLoop i m = selectLoop (i + 1) ?m'"
        using \<open>i < length (proxies m)\<close> by (subst selectLoop.simps) (simp add: Let_def)
      then have "selectLoop (i + 1) ?m' = (r, m')" using "1.prems" by simp
      from "1.IH"[OF \<open>i < length (proxies m)\<close> refl refl _ _ this] True
      show ?thesis by simp
    next
      case False
      then show ?thesis using "1.prems" \<open>i < length (proxies m)\<close>
        by (subst (asm) selectLoop.simps) (auto simp: Let_def split: if_splits)
    qed
  qed
qed

lemma Suc_mod_add: "(Suc c mod n + k) mod n = Suc (c + k) mod n"
  using mod_add_left_eq[of "Suc c" n k] by simp

lemma Suc_Suc_mod_add: "Suc (Suc c mod n + j) mod n = Suc (Suc (c + j)) mod n"
  using mod_add_left_eq[of "Suc c" n "Suc j"] by simp

lemma Suc_mod_add_rest:
  "i < n \<Longrightarrow> (Suc c mod n + (n - Suc i)) mod n = (c + (n - i)) mod n"
  using mod_add_left_eq[of "Suc c" n "n - Suc i"] by (simp add: Suc_diff_Suc)

lemma selectLoop_none:
  "currentProxyIndex m < length (proxies m) \<Longrightarrow> i \<le> length (proxies m) \<Longrightarrow>
   \<forall>k < length (proxies m) - i.
      \<not> isHealthy (proxies m ! ((currentProxyIndex m + k) mod length (proxies m))) \<Longrightarrow>
   selectLoop i m =
     (NoHealthy, m\<lparr>currentProxyIndex :=
        (currentProxyIndex m + (length (proxies m) - i)) mod length (proxies m)\<rparr>)"
proof (induction i m rule: selectLoop.induct)
  case (1 i m)
  let ?n = "length (proxies m)"
  let ?c = "currentProxyIndex m"
  show ?case
  proof (cases "i < ?n")
    case False
    then have "i = ?n" using "1.prems" by simp
    then show ?thesis using "1.prems" by (subst selectLoop.simps) simp
  next
    case True
    let ?m' = "m\<lparr>currentProxyIndex := (?c + 1) mod ?n\<rparr>"
    have nh: "\<not> isHealthy (proxies m ! ?c)"
      using "1.prems"(3)[rule_format, of 0] True "1.prems"(1) by simp
    have un: "selectLoop i m = selectLoop (i + 1) ?m'"
      using True nh "1.prems"(1) by (subst selectLoop.simps) (simp add: Let_def)
    have pos: "0 < length (proxies m)" using True by (cases "proxies m") auto
    have c': "currentProxyIndex ?m' < length (proxies ?m')"
      using pos by simp
    have i': "i + 1 \<le> length (proxies ?m')" using True by simp
    have all': "\<forall>k < length (proxies ?m') - (i + 1).
       \<not> isHealthy (proxies ?m' ! ((currentProxyIndex ?m' + k) mod length (proxies ?m')))"
    proof (intro allI impI)
      fix k assume "k < length (proxies ?m') - (i + 1)"
      then have "Suc k < ?n - i" by simp
      from "1.prems"(3)[rule_format, OF this]
      show "\<not> isHealthy (proxies ?m' ! ((currentProxyIndex ?m' + k) mod length (proxies ?m')))"
        by (simp add: mod_add_left_eq)
    qed
    have "selectLoop (i + 1) ?m' =
        (NoHealthy, ?m'\<lparr>currentProxyIndex :=
           (currentProxyIndex ?m' + (length (proxies ?m') - (i + 1))) mod length (proxies ?m')\<rparr>)"
      using "1.IH"[OF True refl refl "1.prems"(1) nh c' i' all'] .
    moreover have "((?c + 1) mod ?n + (?n - (i + 1))) mod ?n = (?c + (?n - i)) mod ?n"
      using Suc_mod_add_rest[OF True, of ?c] by simp
    ultimately show ?thesis using un by simp
  qed
qed

lemma selectLoop_found:
  "currentProxyIndex m < length (proxies m) \<Longrightarrow> k < length (proxies m) - i \<Longrightarrow>
   isHealthy (proxies m ! ((currentProxyIndex m + k) mod length (proxies m))) \<Longrightarrow>
   \<forall>k' < k. \<not> isHealthy (proxies m ! ((currentProxyIndex m + k') mod length (proxies m))) \<Longrightarrow>
   selectLoop i m =
     (Selected ((currentProxyIndex m + k) mod length (proxies m)),
      m\<lparr>currentProxyIndex := (currentProxyIndex m + k + 1) mod length (proxies m)\<rparr>)"
proof (induction i m arbitrary: k rule: selectLoop.induct)
  case (1 i m)
  let ?n = "length (proxies m)"
  let ?c = "currentProxyIndex m"
  have True: "i < ?n" using "1.prems" by simp
  let ?m' = "m\<lparr>currentProxyIndex := (?c + 1) mod ?n\<rparr>"
  show ?case
  proof (cases k)
    case 0
    then have "isHealthy (proxies m ! ?c)" using "1.prems" by simp
    then show ?thesis using True "1.prems"(1) 0
      by (subst selectLoop.simps) (simp add: Let_def)
  next
    case (Suc j)
    have nh: "\<not> isHealthy (proxies m ! ?c)"
      using "1.prems"(4)[rule_format, of 0] Suc "1.prems"(1) by simp
    have un: "selectLoop i m = selectLoop (i + 1) ?m'"
      using True nh "1.prems"(1) by (subst selectLoop.simps) (simp add: Let_def)
    have pos: "0 < length (proxies m)" using True by (cases "proxies m") auto
    have c': "currentProxyIndex ?m' < length (proxies ?m')"
      using pos by simp
    have j: "j < length (proxies ?m') - (i + 1)" using "1.prems"(2) Suc by simp
    have hj: "isHealthy (proxies ?m' ! ((currentProxyIndex ?m' + j) mod length (proxies ?m')))"
      using "1.prems"(3) Suc by (simp add: mod_add_left_eq)
    have all': "\<forall>k' < j.
       \<not> isHealthy (proxies ?m' ! ((currentProxyIndex ?m' + k') mod length (proxies ?m')))"
    proof (intro allI impI)
      fix k' assume "k' < j"
      then have "Suc k' < k" using Suc by simp
      from "1.prems"(4)[rule_format, OF this]
      show "\<not> isHealthy (proxies ?m' ! ((currentProxyIndex ?m' + k') mod length (proxies ?m')))"
        by (simp add: mod_add_left_eq)
    qed
    have "selectLoop (i + 1) ?m' =
        (Selected ((currentProxyIndex ?m' + j) mod length (proxies ?m')),
         ?m'\<lparr>currentProxyIndex := (currentProxyIndex ?m' + j + 1) mod length (proxies ?m')\<rparr>)"
      using "1.IH"[OF True refl refl "1.prems"(1) nh c' j hj all'] .
    then show ?thesis using un Suc by (simp add: Suc_mod_add Suc_Suc_mod_add)
  qed
qed

lemma first_healthy_offset:
  fixes c n j :: nat
  assumes "c < n" "j < n" "P j"
  shows "\<exists>k < n. P ((c + k) mod n) \<and> (\<forall>k' < k. \<not> P ((c + k') mod n))"
proof -
  define k0 where "k0 = (if c \<le> j then j - c else j + n - c)"
  have "k0 < n" "(c + k0) mod n = j" using assms by (auto simp: k0_def mod_if)
  then have ex: "\<exists>k. k < n \<and> P ((c + k) mod n)" using assms by auto
  define k where "k = (LEAST k. k < n \<and> P ((c + k) mod n))"
  have "k < n \<and> P ((c + k) mod n)" unfolding k_def by (rule LeastI_ex[OF ex])
  moreover have "\<forall>k' < k. \<not> P ((c + k') mod n)"
  proof (intro allI impI notI)
    fix k' assume lt: "k' < k" and p: "P ((c + k') mod n)"
    have "k' < n" using lt \<open>k < n \<and> P ((c + k) mod n)\<close> by simp
    then have "k \<le> k'" unfolding k_def using p by (intro Least_le) simp
    then show False using lt by simp
  qed
  ultimately show ?thesis by blast
qed

lemma selectLoop_result:
  "currentProxyIndex m < length (proxies m) \<Longrightarrow> selectLoop i m = (r, m') \<Longrightarrow>
   currentProxyIndex m' < length (proxies m) \<and>
   (case r of Selected j \<Rightarrow> j < length (proxies m) \<and> isHealthy (proxies m ! j)
            | NoHealthy \<Rightarrow> True | Thrown \<Rightarrow> False)"
proof (induction i m rule: selectLoop.induct)
  case (1 i m)
  let ?n = "length (proxies m)"
  let ?c = "currentProxyIndex m"
  let ?m' = "m\<lparr>currentProxyIndex := (?c + 1) mod ?n\<rparr>"
  have pos: "0 < ?n" using "1.prems"(1) by (cases "proxies m") auto
  show ?case
  proof (cases "i < ?n")
    case False
    then show ?thesis using "1.prems" by (simp add: selectLoop.simps)
  next
    case True
    show ?thesis
    proof (cases "isHealthy (proxies m ! ?c)")
      case h: True
      then have "selectLoop i m = (Selected ?c, ?m')"
        using True "1.prems"(1) by (subst selectLoop.simps) (simp add: Let_def)
      then show ?thesis using "1.prems" h pos by auto
    next
      case nh: False
      then have "selectLoop i m = selectLoop (i + 1) ?m'"
        using True "1.prems"(1) by (subst selectLoop.simps) (simp add: Let_def)
      then have r: "selectLoop (i + 1) ?m' = (r, m')" using "1.prems"(2) by simp
      have c': "currentProxyIndex ?m' < length (proxies ?m')" using pos by simp
      from "1.IH"[OF True refl refl "1.prems"(1) nh c' r] show ?thesis
        by (cases r) simp_all
    qed
  qed
qed

subsection \<open>The structure of the manager is kept\<close>

lemma updProxy_simps [simp]:
  "proxies (updProxy i f m) = (proxies m)[i := f (proxies m ! i)]"
  "currentProxyIndex (updProxy i f m) = currentProxyIndex m"
  "pendings (updProxy i f m) = pendings m"
  "nextTaskId (updProxy i f m) = nextTaskId m"
  "clock (updProxy i f m) = clock m"
  "trace (updProxy i f m) = trace m"
  by (simp_all add: updProxy_def)

lemma emit_simps [simp]:
  "proxies (emit es m) = proxies m"
  "currentProxyIndex (emit es m) = currentProxyIndex m"
  "pendings (emit es m) = pendings m"
  "nextTaskId (emit es m) = nextTaskId m"
  "clock (emit es m) = clock m"
  "trace (emit es m) = trace m @ es"
  by (simp_all add: emit_def)

lemma inFlight_simps [simp]:
  "inFlight (updProxy i f m) j = inFlight m j"
  "inFlight (emit es m) j = inFlight m j"
  "inFlight (m\<lparr>clock := c\<rparr>) j = inFlight m j"
  "inFlight (m\<lparr>pendings := xs @ [x]\<rparr>) j =
     length (filter (\<lambda>x. proxyOf x = j) xs) + (if proxyOf x = j then 1 else 0)"
  by (simp_all add: inFlight_def)

lemma filter_dropAt:
  "k < length xs \<Longrightarrow>
   length (filter P (dropAt k xs)) + (if P (xs ! k) then 1 else 0) = length (filter P xs)"
proof -
  assume k: "k < length xs"
  have "xs = take k xs @ xs ! k # drop (Suc k) xs" using k by (simp add: id_take_nth_drop)
  then have "filter P xs = filter P (take k xs) @ filter P [xs ! k] @ filter P (drop (Suc k) xs)"
    by (metis append_Cons append_Nil filter_append)
  then show ?thesis by (simp add: dropAt_def)
qed

lemma set_dropAt: "set (dropAt k xs) \<subseteq> set xs"
  by (auto simp: dropAt_def dest: in_set_takeD in_set_dropD)

lemma processQueue_eq:
  "processQueue now jitter i m = (if canProcess i m then scheduled now jitter i m else m)"
  by (cases "requestQueue (proxies m ! i)")
     (auto simp: processQueue_def scheduled_def canProcess_def Let_def updProxy_def)

lemma scheduled_simps [simp]:
  "proxies (scheduled now jitter i m) =
     (proxies m)[i := (proxies m ! i)\<lparr>isProcessing := True,
                       requestQueue := tl (requestQueue (proxies m ! i))\<rparr>]"
  "currentProxyIndex (scheduled now jitter i m) = currentProxyIndex m"
  "pendings (scheduled now jitter i m) =
     pendings m @ [Timer i (hd (requestQueue (proxies m ! i))) now
        (max 0 (MIN_REQUEST_INTERVAL_MS - (now - lastRequestTime (proxies m ! i))) + jitter)]"
  "nextTaskId (scheduled now jitter i m) = nextTaskId m"
  "clock (scheduled now jitter i m) = clock m"
  "trace (scheduled now jitter i m) =
     trace m @ [SetProcessing i True, Dequeue i (taskId (hd (requestQueue (proxies m ! i)))),
       SetTimeout i (taskId (hd (requestQueue (proxies m ! i))))
        (max 0 (MIN_REQUEST_INTERVAL_MS - (now - lastRequestTime (proxies m ! i))) + jitter)]"
  by (simp_all add: scheduled_def Let_def)

lemma processQueue_struct:
  assumes "structOk m"
  shows "structOk (processQueue now jitter i m)"
proof (cases "canProcess i m")
  case False
  then show ?thesis using assms by (simp add: processQueue_eq)
next
  case True
  then have "inFlight m i = 0" using assms by (simp add: structOk_def pendingsOk_def canProcess_def)
  then show ?thesis using assms True
    unfolding processQueue_eq structOk_def cursorOk_def pendingsOk_def healthOk_def canProcess_def
    by (auto simp: nth_list_update inFlight_def)
qed


lemma selectProxy_result:
  assumes "cursorOk m" "selectProxy m = (r, m')"
  shows "proxies m' = proxies m" "pendings m' = pendings m" "nextTaskId m' = nextTaskId m"
    "clock m' = clock m" "trace m' = trace m" "cursorOk m'"
    "case r of Selected i \<Rightarrow> i < length (proxies m) \<and> isHealthy (proxies m ! i)
             | NoHealthy \<Rightarrow> True | Thrown \<Rightarrow> False"
proof -
  have fr: "proxies m' = proxies m \<and> pendings m' = pendings m \<and> nextTaskId m' = nextTaskId m
     \<and> clock m' = clock m \<and> trace m' = trace m"
    using selectLoop_frame[of 0 m r m'] assms(2) by (simp add: selectProxy_def)
  then show "proxies m' = proxies m" "pendings m' = pendings m" "nextTaskId m' = nextTaskId m"
    "clock m' = clock m" "trace m' = trace m" by simp_all
  show "cursorOk m'"
    "case r of Selected i \<Rightarrow> i < length (proxies m) \<and> isHealthy (proxies m ! i)
             | NoHealthy \<Rightarrow> True | Thrown \<Rightarrow> False"
  proof -
    show "cursorOk m'"
    proof (cases "proxies m = []")
      case True
      then show ?thesis using fr by (simp add: cursorOk_def)
    next
      case False
      then have "currentProxyIndex m < length (proxies m)" using assms(1) by (simp add: cursorOk_def)
      from selectLoop_result[OF this, of 0 r m'] assms(2) fr show ?thesis
        by (simp add: selectProxy_def cursorOk_def)
    qed
    show "case r of Selected i \<Rightarrow> i < length (proxies m) \<and> isHealthy (proxies m ! i)
             | NoHealthy \<Rightarrow> True | Thrown \<Rightarrow> False"
    proof (cases "proxies m = []")
      case True
      then have "selectProxy m = (NoHealthy, m)" by (simp add: selectProxy_def selectLoop.simps)
      then show ?thesis using assms(2) by simp
    next
      case False
      then have "currentProxyIndex m < length (proxies m)" using assms(1) by (simp add: cursorOk_def)
      from selectLoop_result[OF this, of 0 r m'] assms(2) show ?thesis
        by (simp add: selectProxy_def)
    qed
  qed
qed

lemma structOk_cong:
  "proxies m' = proxies m \<Longrightarrow> currentProxyIndex m' = currentProxyIndex m \<Longrightarrow>
   pendings m' = pendings m \<Longrightarrow> structOk m' = structOk m"
  by (simp add: structOk_def cursorOk_def pendingsOk_def healthOk_def inFlight_def)

lemma structOk_cursor:
  "structOk m \<Longrightarrow> proxies m' = proxies m \<Longrightarrow> cursorOk m' \<Longrightarrow>
   pendings m' = pendings m \<Longrightarrow> structOk m'"
  by (simp add: structOk_def cursorOk_def pendingsOk_def healthOk_def inFlight_def)

lemma nth_list_update_if:
  "xs[i := x] ! j = (if i = j \<and> i < length xs then x else xs ! j)"
  by (cases "i < length xs") (auto simp: nth_list_update list_update_beyond)

lemma structOk_queue:
  "structOk m \<Longrightarrow> structOk (updProxy i (\<lambda>p. p\<lparr>requestQueue := f p\<rparr>) m)"
  unfolding structOk_def cursorOk_def pendingsOk_def healthOk_def
  by (simp add: inFlight_def nth_list_update_if)


lemma submitTransaction_eq:
  assumes "selectProxy (m\<lparr>nextTaskId := nextTaskId m + 1\<rparr>) = (r, m1)"
  shows "submitTransaction now jitter key n meth m =
     (case r of
        NoHealthy \<Rightarrow> emit [TaskReject (nextTaskId m) noHealthyError] m1
      | Thrown \<Rightarrow> emit [TaskReject (nextTaskId m) typeError] m1
      | Selected i \<Rightarrow>
          (let m2 = emit [Enqueue i (nextTaskId m)]
                 (updProxy i (\<lambda>p. p\<lparr>requestQueue := requestQueue p @
                     [\<lparr>taskId = nextTaskId m, privateKey = key, nonce = n, methodName = meth\<rparr>]\<rparr>) m1)
           in if \<not> isProcessing (proxies m2 ! i)
              then processQueue now jitter i (emit [CallProcessQueue i] m2)
              else m2))"
  using assms by (cases r) (simp_all add: submitTransaction_def Let_def)

lemma submit_struct:
  assumes "structOk m"
  shows "structOk (submitTransaction now jitter key n meth m)"
proof -
  let ?m0 = "m\<lparr>nextTaskId := nextTaskId m + 1\<rparr>"
  obtain r m1 where sel: "selectProxy ?m0 = (r, m1)" by (cases "selectProxy ?m0")
  have s0: "structOk ?m0" using assms structOk_cong[of ?m0 m] by simp
  then have c0: "cursorOk ?m0" by (simp add: structOk_def)
  note res = selectProxy_result[OF c0 sel]
  have s1: "structOk m1" using structOk_cursor[OF s0 res(1) res(6) res(2)] .
  show ?thesis
  proof (cases r)
    case (Selected i)
    let ?task = "\<lparr>taskId = nextTaskId m, privateKey = key, nonce = n, methodName = meth\<rparr>"
    let ?u = "updProxy i (\<lambda>p. p\<lparr>requestQueue := requestQueue p @ [?task]\<rparr>) m1"
    let ?m2 = "emit [Enqueue i (nextTaskId m)] ?u"
    have su: "structOk ?u" using structOk_queue[OF s1] .
    have s2: "structOk ?m2" using su structOk_cong[of ?m2 ?u] by simp
    have s3: "structOk (emit [CallProcessQueue i] ?m2)"
      using s2 structOk_cong[of "emit [CallProcessQueue i] ?m2" ?m2] by simp
    show ?thesis
      unfolding submitTransaction_eq[OF sel] Selected
      using s2 processQueue_struct[OF s3] by (simp add: Let_def)
  next
    case NoHealthy
    show ?thesis
      unfolding submitTransaction_eq[OF sel] NoHealthy
      using s1 structOk_cong[of "emit [TaskReject (nextTaskId m) noHealthyError] m1" m1] by simp
  next
    case Thrown
    then show ?thesis using res(7) by simp
  qed
qed

lemma structOk_update:
  assumes "structOk m" "i < length (proxies m)"
    and "proxies m' = (proxies m)[i := p']"
    and "currentProxyIndex m' = currentProxyIndex m"
    and "isHealthy p' \<longleftrightarrow> failureCount p' < MAX_PROXY_FAILURES"
    and "\<not> isHealthy p' \<longrightarrow> \<not> isProcessing p'"
    and "\<forall>x \<in> set (pendings m'). proxyOf x < length (proxies m)"
    and "inFlight m' i = (if isProcessing p' then 1 else 0)"
    and "\<forall>j. j \<noteq> i \<longrightarrow> inFlight m' j = inFlight m j"
  shows "structOk m'"
proof -
  have c: "cursorOk m'" using assms(1,3,4) by (auto simp: structOk_def cursorOk_def)
  have h: "healthOk m'"
    unfolding healthOk_def using assms(1,2,3,5,6)
    by (auto simp: structOk_def healthOk_def nth_list_update)
  have p: "pendingsOk m'"
    unfolding pendingsOk_def
  proof (intro conjI allI impI)
    show "\<forall>x \<in> set (pendings m'). proxyOf x < length (proxies m')"
      using assms(3,7) by simp
  next
    fix j assume j: "j < length (proxies m')"
    show "inFlight m' j = (if isProcessing (proxies m' ! j) then 1 else 0)"
    proof (cases "j = i")
      case True
      then show ?thesis using assms(2,3,8) by simp
    next
      case False
      then have "inFlight m' j = inFlight m j" using assms(9) by simp
      moreover have "proxies m' ! j = proxies m ! j" using False assms(3) by simp
      ultimately show ?thesis using assms(1,3) j by (simp add: structOk_def pendingsOk_def)
    qed
  qed
  show ?thesis using c h p by (simp add: structOk_def)
qed

lemma inFlight_dropAt:
  "k < length (pendings m) \<Longrightarrow>
   inFlight (m\<lparr>pendings := dropAt k (pendings m)\<rparr>) j
     + (if proxyOf (pendings m ! k) = j then 1 else 0) = inFlight m j"
  using filter_dropAt[of k "pendings m" "\<lambda>x. proxyOf x = j"] by (simp add: inFlight_def)

lemma inFlight_pendings_cong:
  "pendings m' = pendings m \<Longrightarrow> inFlight m' j = inFlight m j"
  by (simp add: inFlight_def)

lemma pending_proxy_bound:
  "structOk m \<Longrightarrow> k < length (pendings m) \<Longrightarrow> proxyOf (pendings m ! k) < length (proxies m)"
  using nth_mem[of k "pendings m"] by (auto simp: structOk_def pendingsOk_def)

lemma pending_isProcessing:
  assumes "structOk m" "k < length (pendings m)"
  shows "isProcessing (proxies m ! proxyOf (pendings m ! k))"
    and "inFlight (m\<lparr>pendings := dropAt k (pendings m)\<rparr>) (proxyOf (pendings m ! k)) = 0"
proof -
  let ?i = "proxyOf (pendings m ! k)"
  have i: "?i < length (proxies m)" using pending_proxy_bound[OF assms] .
  have "inFlight m ?i \<ge> 1" using inFlight_dropAt[OF assms(2), of ?i] by simp
  moreover have eq: "inFlight m ?i = (if isProcessing (proxies m ! ?i) then 1 else 0)"
    using assms(1) i by (simp add: structOk_def pendingsOk_def)
  ultimately show "isProcessing (proxies m ! ?i)" by (auto split: if_splits)
  then have "inFlight m ?i = 1" using eq by simp
  then show "inFlight (m\<lparr>pendings := dropAt k (pendings m)\<rparr>) ?i = 0"
    using inFlight_dropAt[OF assms(2), of ?i] by simp
qed

lemma timer_struct:
  assumes "structOk m" "k < length (pendings m)" "pendings m ! k = Timer i t setAt delay"
  shows "structOk (timerCallback now i t (m\<lparr>clock := now, pendings := dropAt k (pendings m)\<rparr>))"
proof -
  let ?m' = "timerCallback now i t (m\<lparr>clock := now, pendings := dropAt k (pendings m)\<rparr>)"
  have pi: "proxyOf (pendings m ! k) = i" using assms(3) by simp
  have i: "i < length (proxies m)" using pending_proxy_bound[OF assms(1,2)] pi by simp
  have proc: "isProcessing (proxies m ! i)" using pending_isProcessing(1)[OF assms(1,2)] pi by simp
  have pend: "pendings ?m' = dropAt k (pendings m) @ [Sending i t]"
    by (simp add: timerCallback_def Let_def)
  have fl: "inFlight ?m' j = inFlight m j" for j
  proof -
    have "inFlight ?m' j = length (filter (\<lambda>x. proxyOf x = j) (dropAt k (pendings m)))
            + (if i = j then 1 else 0)"
      unfolding inFlight_def pend by simp
    then show ?thesis using inFlight_dropAt[OF assms(2), of j] pi by (simp add: inFlight_def)
  qed
  show ?thesis
  proof (rule structOk_update[OF assms(1) i, where p' = "(proxies m ! i)\<lparr>lastRequestTime := now\<rparr>"])
    show "proxies ?m' = (proxies m)[i := (proxies m ! i)\<lparr>lastRequestTime := now\<rparr>]"
      by (simp add: timerCallback_def Let_def)
    show "currentProxyIndex ?m' = currentProxyIndex m" by (simp add: timerCallback_def Let_def)
    show "isHealthy ((proxies m ! i)\<lparr>lastRequestTime := now\<rparr>)
        \<longleftrightarrow> failureCount ((proxies m ! i)\<lparr>lastRequestTime := now\<rparr>) < MAX_PROXY_FAILURES"
      using assms(1) i by (simp add: structOk_def healthOk_def)
    show "\<not> isHealthy ((proxies m ! i)\<lparr>lastRequestTime := now\<rparr>)
        \<longrightarrow> \<not> isProcessing ((proxies m ! i)\<lparr>lastRequestTime := now\<rparr>)"
      using assms(1) i by (simp add: structOk_def healthOk_def)
    show "\<forall>x \<in> set (pendings ?m'). proxyOf x < length (proxies m)"
      using assms(1) i set_dropAt[of k "pendings m"] unfolding pend
      by (auto simp: structOk_def pendingsOk_def)
    show "inFlight ?m' i = (if isProcessing ((proxies m ! i)\<lparr>lastRequestTime := now\<rparr>) then 1 else 0)"
      using fl[of i] assms(1) i by (simp add: structOk_def pendingsOk_def)
    show "\<forall>j. j \<noteq> i \<longrightarrow> inFlight ?m' j = inFlight m j" using fl by simp
  qed
qed


lemma settledState_simps [simp]:
  "proxies (settledState i t outcome m) = (proxies m)[i := settledProxy outcome (proxies m ! i)]"
  "currentProxyIndex (settledState i t outcome m) = currentProxyIndex m"
  "pendings (settledState i t outcome m) = pendings m"
  "nextTaskId (settledState i t outcome m) = nextTaskId m"
  "clock (settledState i t outcome m) = clock m"
  "trace (settledState i t outcome m) = trace m @ settleEffects i t outcome (proxies m ! i)"
  by (simp_all add: settledState_def)

lemma sendSettled_eq:
  assumes "i < length (proxies m)"
  shows "sendSettled now jitter i t outcome m =
     (let m2 = settledState i t outcome m
      in if isHealthy (proxies m2 ! i) \<and> requestQueue (proxies m2 ! i) \<noteq> []
         then processQueue now jitter i (emit [CallProcessQueue i] m2)
         else m2)"
proof -
  have m2: "emit [SetProcessing i False]
         (updProxy i (\<lambda>p. p\<lparr>isProcessing := False\<rparr>)
           (case outcome of
               Sent receipt \<Rightarrow>
                 emit [SetFailureCount i 0, SetHealthy i True, TaskResolve (taskId t) receipt]
                   (updProxy i (\<lambda>p. p\<lparr>failureCount := 0, isHealthy := True\<rparr>) m)
             | Threw error \<Rightarrow>
                 (let n = failureCount (proxies m ! i) + 1 in
                  if n \<ge> MAX_PROXY_FAILURES then
                    emit [SetFailureCount i n, SetHealthy i False, TaskReject (taskId t) error]
                      (updProxy i (\<lambda>p. p\<lparr>failureCount := n, isHealthy := False\<rparr>) m)
                  else
                    emit [SetFailureCount i n, TaskReject (taskId t) error]
                      (updProxy i (\<lambda>p. p\<lparr>failureCount := n\<rparr>) m))))
        = settledState i t outcome m"
    using assms
    by (cases outcome)
       (simp_all add: settledState_def settleEffects_def settledProxy_def emit_def updProxy_def Let_def)
  show ?thesis unfolding sendSettled_def m2[symmetric] Let_def by (rule refl)
qed

lemma settled_struct:
  assumes "structOk m" "k < length (pendings m)" "pendings m ! k = Sending i t"
  shows "structOk (settledState i t outcome (m\<lparr>clock := now, pendings := dropAt k (pendings m)\<rparr>))"
proof -
  let ?m0 = "m\<lparr>clock := now, pendings := dropAt k (pendings m)\<rparr>"
  let ?m' = "settledState i t outcome ?m0"
  let ?p = "proxies m ! i"
  have pi: "proxyOf (pendings m ! k) = i" using assms(3) by simp
  have i: "i < length (proxies m)" using pending_proxy_bound[OF assms(1,2)] pi by simp
  have proc: "isProcessing ?p" using pending_isProcessing(1)[OF assms(1,2)] pi by simp
  have hp: "isHealthy ?p" "failureCount ?p < MAX_PROXY_FAILURES"
    using assms(1) i proc by (auto simp: structOk_def healthOk_def)
  have z: "inFlight ?m' i = 0"
    using pending_isProcessing(2)[OF assms(1,2)] pi by (simp add: inFlight_def)
  have oth: "inFlight ?m' j = inFlight m j" if "j \<noteq> i" for j
    using inFlight_dropAt[OF assms(2), of j] pi that by (simp add: inFlight_def)
  show ?thesis
  proof (rule structOk_update[OF assms(1) i, where p' = "settledProxy outcome ?p"])
    show "proxies ?m' = (proxies m)[i := settledProxy outcome ?p]" by simp
    show "currentProxyIndex ?m' = currentProxyIndex m" by simp
    show "isHealthy (settledProxy outcome ?p)
        \<longleftrightarrow> failureCount (settledProxy outcome ?p) < MAX_PROXY_FAILURES"
      using hp by (cases outcome) (auto simp: settledProxy_def MAX_PROXY_FAILURES_def)
    show "\<not> isHealthy (settledProxy outcome ?p) \<longrightarrow> \<not> isProcessing (settledProxy outcome ?p)"
      by (cases outcome) (auto simp: settledProxy_def)
    show "\<forall>x \<in> set (pendings ?m'). proxyOf x < length (proxies m)"
      using assms(1) set_dropAt[of k "pendings m"] by (auto simp: structOk_def pendingsOk_def)
    show "inFlight ?m' i = (if isProcessing (settledProxy outcome ?p) then 1 else 0)"
      using z by (cases outcome) (auto simp: settledProxy_def)
    show "\<forall>j. j \<noteq> i \<longrightarrow> inFlight ?m' j = inFlight m j" using oth by simp
  qed
qed

lemma send_struct:
  assumes "structOk m" "k < length (pendings m)" "pendings m ! k = Sending i t"
  shows "structOk (sendSettled now jitter i t outcome
                     (m\<lparr>clock := now, pendings := dropAt k (pendings m)\<rparr>))"
proof -
  let ?m0 = "m\<lparr>clock := now, pendings := dropAt k (pendings m)\<rparr>"
  let ?m2 = "settledState i t outcome ?m0"
  have pi: "proxyOf (pendings m ! k) = i" using assms(3) by simp
  have i: "i < length (proxies ?m0)" using pending_proxy_bound[OF assms(1,2)] pi by simp
  have s2: "structOk ?m2" using settled_struct[OF assms] .
  have s3: "structOk (emit [CallProcessQueue i] ?m2)"
    using s2 structOk_cong[of "emit [CallProcessQueue i] ?m2" ?m2] by simp
  show ?thesis unfolding sendSettled_eq[OF i] Let_def
    using s2 processQueue_struct[OF s3] by simp
qed

lemma step_struct:
  assumes "structOk m" "step e m = Some m'"
  shows "structOk m'"
proof (cases e)
  case (Submit now jitter key n meth)
  have "structOk (m\<lparr>clock := now\<rparr>)" using assms(1) structOk_cong[of "m\<lparr>clock := now\<rparr>" m] by simp
  from submit_struct[OF this] show ?thesis using assms(2) Submit by (auto split: if_splits)
next
  case (TimerFires now k)
  then show ?thesis using assms timer_struct[OF assms(1)]
    by (auto split: if_splits pending.splits)
next
  case (SendEnds now jitter k outcome)
  then show ?thesis using assms send_struct[OF assms(1)]
    by (auto split: if_splits pending.splits)
qed

lemma ProxyManager_struct: "structOk (ProxyManager n)"
  by (auto simp: ProxyManager_def structOk_def cursorOk_def pendingsOk_def healthOk_def
      inFlight_def newProxy_def MAX_PROXY_FAILURES_def)

lemma run_struct:
  "structOk m \<Longrightarrow> run es m = Some m' \<Longrightarrow> structOk m'"
  by (induction es arbitrary: m) (auto split: option.splits dest: step_struct)

subsection \<open>The delay of the pending timers\<close>

lemma dispatchTimes_append [simp]:
  "dispatchTimes i (es @ es') = dispatchTimes i es @ dispatchTimes i es'"
  by (induction i es rule: dispatchTimes.induct) auto

lemma dispatchTimes_settleEffects [simp]:
  "dispatchTimes j (settleEffects i t outcome p) = []"
  by (cases outcome) (auto simp: settleEffects_def)

lemma spaced_snoc:
  "spaced d ts \<Longrightarrow> \<forall>t \<in> set ts. t + d \<le> t' \<Longrightarrow> spaced d (ts @ [t'])"
  by (induction d ts rule: spaced.induct) auto

lemma spaced_snoc_last:
  "spaced d ts \<Longrightarrow> (ts \<noteq> [] \<longrightarrow> last ts + d \<le> t') \<Longrightarrow> spaced d (ts @ [t'])"
  by (induction d ts rule: spaced.induct) auto

lemma waitOk_cong:
  "lastRequestTime (ps' ! proxyOf x) = lastRequestTime (ps ! proxyOf x) \<Longrightarrow>
   waitOk ps' x = waitOk ps x"
  by (cases x) auto

lemma waitOk_due:
  "waitOk ps (Timer i t setAt delay) \<Longrightarrow>
   lastRequestTime (ps ! i) + MIN_REQUEST_INTERVAL_MS \<le> setAt + delay"
  by (simp add: Let_def max_def split: if_splits)

lemma waitsOk_frame:
  assumes "waitsOk m"
    and "\<forall>j. lastRequestTime (proxies m' ! j) = lastRequestTime (proxies m ! j)"
    and "set (pendings m') \<subseteq> set (pendings m)"
  shows "waitsOk m'"
  unfolding waitsOk_def
proof
  fix x assume "x \<in> set (pendings m')"
  then have "waitOk (proxies m) x" using assms(1,3) by (auto simp: waitsOk_def)
  then show "waitOk (proxies m') x"
    using waitOk_cong[of "proxies m'" x "proxies m"] assms(2) by simp
qed

lemma processQueue_waits:
  assumes "waitsOk m" "0 \<le> jitter" "jitter < 10"
  shows "waitsOk (processQueue now jitter i m)"
proof (cases "canProcess i m")
  case False
  then show ?thesis using assms by (simp add: processQueue_eq)
next
  case True
  let ?p = "proxies m ! i"
  let ?d = "max 0 (MIN_REQUEST_INTERVAL_MS - (now - lastRequestTime ?p)) + jitter"
  let ?m' = "scheduled now jitter i m"
  have i: "i < length (proxies m)" using True by (simp add: canProcess_def)
  have lr: "lastRequestTime (proxies ?m' ! j) = lastRequestTime (proxies m ! j)" for j
    by (simp add: nth_list_update_if)
  have new: "waitOk (proxies ?m') (Timer i (hd (requestQueue ?p)) now ?d)"
    using assms(2,3) lr[of i] by (simp add: Let_def del: scheduled_simps)
  show ?thesis unfolding processQueue_eq using True
  proof (simp, unfold waitsOk_def, intro ballI)
    fix x assume "x \<in> set (pendings ?m')"
    then consider "x \<in> set (pendings m)" | "x = Timer i (hd (requestQueue ?p)) now ?d" by auto
    then show "waitOk (proxies ?m') x"
    proof cases
      case 1
      then have "waitOk (proxies m) x" using assms(1) by (simp add: waitsOk_def)
      then show ?thesis using waitOk_cong[of "proxies ?m'" x "proxies m"] lr by simp
    next
      case 2
      then show ?thesis using new by simp
    qed
  qed
qed

lemma submit_waits:
  assumes "structOk m" "waitsOk m" "0 \<le> jitter" "jitter < 10"
  shows "waitsOk (submitTransaction now jitter key n meth m)"
proof -
  let ?m0 = "m\<lparr>nextTaskId := nextTaskId m + 1\<rparr>"
  obtain r m1 where sel: "selectProxy ?m0 = (r, m1)" by (cases "selectProxy ?m0")
  have s0: "structOk ?m0" using assms(1) structOk_cong[of ?m0 m] by simp
  then have c0: "cursorOk ?m0" by (simp add: structOk_def)
  note res = selectProxy_result[OF c0 sel]
  have t1: "waitsOk m1" using waitsOk_frame[OF assms(2), of m1] res by simp
  show ?thesis
  proof (cases r)
    case (Selected i)
    let ?task = "\<lparr>taskId = nextTaskId m, privateKey = key, nonce = n, methodName = meth\<rparr>"
    let ?m2 = "emit [Enqueue i (nextTaskId m)]
                 (updProxy i (\<lambda>p. p\<lparr>requestQueue := requestQueue p @ [?task]\<rparr>) m1)"
    have t2: "waitsOk ?m2"
      by (rule waitsOk_frame[OF t1]) (simp_all add: nth_list_update_if)
    have t3: "waitsOk (emit [CallProcessQueue i] ?m2)"
      by (rule waitsOk_frame[OF t2]) simp_all
    show ?thesis
      unfolding submitTransaction_eq[OF sel] Selected
      using t2 processQueue_waits[OF t3 assms(3,4)] by (simp add: Let_def)
  next
    case NoHealthy
    have "waitsOk (emit [TaskReject (nextTaskId m) noHealthyError] m1)"
      by (rule waitsOk_frame[OF t1]) simp_all
    then show ?thesis unfolding submitTransaction_eq[OF sel] NoHealthy by simp
  next
    case Thrown
    then show ?thesis using res(7) by simp
  qed
qed

lemma no_other_pending:
  assumes "structOk m" "k < length (pendings m)" "x \<in> set (dropAt k (pendings m))"
  shows "proxyOf x \<noteq> proxyOf (pendings m ! k)"
proof
  assume eq: "proxyOf x = proxyOf (pendings m ! k)"
  have "filter (\<lambda>y. proxyOf y = proxyOf (pendings m ! k)) (dropAt k (pendings m)) \<noteq> []"
    using assms(3) eq by (auto simp: filter_empty_conv)
  then show False using pending_isProcessing(2)[OF assms(1,2)] by (simp add: inFlight_def)
qed

lemma timer_waits:
  assumes "structOk m" "waitsOk m" "k < length (pendings m)"
    "pendings m ! k = Timer i t setAt delay"
  shows "waitsOk (timerCallback now i t (m\<lparr>clock := now, pendings := dropAt k (pendings m)\<rparr>))"
proof -
  let ?m' = "timerCallback now i t (m\<lparr>clock := now, pendings := dropAt k (pendings m)\<rparr>)"
  have pi: "proxyOf (pendings m ! k) = i" using assms(4) by simp
  have px: "proxies ?m' = (proxies m)[i := (proxies m ! i)\<lparr>lastRequestTime := now\<rparr>]"
    by (simp add: timerCallback_def Let_def)
  have pend: "pendings ?m' = dropAt k (pendings m) @ [Sending i t]"
    by (simp add: timerCallback_def Let_def)
  show ?thesis unfolding waitsOk_def
  proof
    fix x assume "x \<in> set (pendings ?m')"
    then consider "x \<in> set (dropAt k (pendings m))" | "x = Sending i t" unfolding pend by auto
    then show "waitOk (proxies ?m') x"
    proof cases
      case 1
      then have ne: "proxyOf x \<noteq> i" using no_other_pending[OF assms(1,3)] pi by simp
      have "x \<in> set (pendings m)" using 1 set_dropAt by fastforce
      then have "waitOk (proxies m) x" using assms(2) by (simp add: waitsOk_def)
      then show ?thesis using waitOk_cong[of "proxies ?m'" x "proxies m"] ne
        unfolding px by (simp add: nth_list_update_if)
    next
      case 2
      then show ?thesis by simp
    qed
  qed
qed

lemma send_waits:
  assumes "structOk m" "waitsOk m" "k < length (pendings m)" "pendings m ! k = Sending i t"
    "0 \<le> jitter" "jitter < 10"
  shows "waitsOk (sendSettled now jitter i t outcome
                     (m\<lparr>clock := now, pendings := dropAt k (pendings m)\<rparr>))"
proof -
  let ?m0 = "m\<lparr>clock := now, pendings := dropAt k (pendings m)\<rparr>"
  let ?m2 = "settledState i t outcome ?m0"
  have pi: "proxyOf (pendings m ! k) = i" using assms(4) by simp
  have i: "i < length (proxies ?m0)" using pending_proxy_bound[OF assms(1,3)] pi by simp
  have lr: "lastRequestTime (settledProxy outcome p) = lastRequestTime p" for p
    by (cases outcome) (simp_all add: settledProxy_def)
  have t2: "waitsOk ?m2"
    by (rule waitsOk_frame[OF assms(2)]) (simp_all add: nth_list_update_if lr set_dropAt)
  have t3: "waitsOk (emit [CallProcessQueue i] ?m2)"
    by (rule waitsOk_frame[OF t2]) simp_all
  show ?thesis unfolding sendSettled_eq[OF i] Let_def
    using t2 processQueue_waits[OF t3 assms(5,6)] by simp
qed

lemma step_waits:
  assumes "structOk m" "waitsOk m" "step e m = Some m'"
  shows "waitsOk m'"
proof (cases e)
  case (Submit now jitter key n meth)
  have s: "structOk (m\<lparr>clock := now\<rparr>)" using assms(1) structOk_cong[of "m\<lparr>clock := now\<rparr>" m] by simp
  have t: "waitsOk (m\<lparr>clock := now\<rparr>)" by (rule waitsOk_frame[OF assms(2)]) simp_all
  from submit_waits[OF s t] show ?thesis using assms(3) Submit by (auto split: if_splits)
next
  case (TimerFires now k)
  then show ?thesis using assms(3) timer_waits[OF assms(1,2)]
    by (auto split: if_splits pending.splits)
next
  case (SendEnds now jitter k outcome)
  then show ?thesis using assms(3) send_waits[OF assms(1,2)]
    by (auto split: if_splits pending.splits)
qed

lemma ProxyManager_waits: "waitsOk (ProxyManager n)"
  by (simp add: ProxyManager_def waitsOk_def)

subsection \<open>Stamps of a proxy are spaced\<close>

lemma stampsOk_frame:
  assumes "stampsOk tol m" "length (proxies m') = length (proxies m)"
    and "\<forall>j. lastRequestTime (proxies m' ! j) = lastRequestTime (proxies m ! j)"
    and "\<forall>i. dispatchTimes i (trace m') = dispatchTimes i (trace m)"
  shows "stampsOk tol m'"
  using assms by (simp add: stampsOk_def)

lemma processQueue_stamps:
  assumes "stampsOk tol m"
  shows "stampsOk tol (processQueue now jitter i m)"
proof (cases "canProcess i m")
  case False
  then show ?thesis using assms by (simp add: processQueue_eq)
next
  case True
  have "stampsOk tol (scheduled now jitter i m)"
    by (rule stampsOk_frame[OF assms]) (simp_all add: nth_list_update_if)
  then show ?thesis using True by (simp add: processQueue_eq)
qed

lemma submit_stamps:
  assumes "structOk m" "stampsOk tol m"
  shows "stampsOk tol (submitTransaction now jitter key n meth m)"
proof -
  let ?m0 = "m\<lparr>nextTaskId := nextTaskId m + 1\<rparr>"
  obtain r m1 where sel: "selectProxy ?m0 = (r, m1)" by (cases "selectProxy ?m0")
  have s0: "structOk ?m0" using assms(1) structOk_cong[of ?m0 m] by simp
  then have c0: "cursorOk ?m0" by (simp add: structOk_def)
  note res = selectProxy_result[OF c0 sel]
  have t1: "stampsOk tol m1" using stampsOk_frame[OF assms(2), of m1] res by simp
  show ?thesis
  proof (cases r)
    case (Selected i)
    let ?task = "\<lparr>taskId = nextTaskId m, privateKey = key, nonce = n, methodName = meth\<rparr>"
    let ?m2 = "emit [Enqueue i (nextTaskId m)]
                 (updProxy i (\<lambda>p. p\<lparr>requestQueue := requestQueue p @ [?task]\<rparr>) m1)"
    have t2: "stampsOk tol ?m2"
      by (rule stampsOk_frame[OF t1]) (simp_all add: nth_list_update_if)
    have t3: "stampsOk tol (emit [CallProcessQueue i] ?m2)"
      by (rule stampsOk_frame[OF t2]) simp_all
    show ?thesis
      unfolding submitTransaction_eq[OF sel] Selected
      using t2 processQueue_stamps[OF t3] by (simp add: Let_def)
  next
    case NoHealthy
    have "stampsOk tol (emit [TaskReject (nextTaskId m) noHealthyError] m1)"
      by (rule stampsOk_frame[OF t1]) simp_all
    then show ?thesis unfolding submitTransaction_eq[OF sel] NoHealthy by simp
  next
    case Thrown
    then show ?thesis using res(7) by simp
  qed
qed

lemma timer_stamps:
  assumes "structOk m" "waitsOk m" "stampsOk tol m" "k < length (pendings m)"
    "pendings m ! k = Timer i t setAt delay" "setAt + delay \<le> now + tol"
  shows "stampsOk tol (timerCallback now i t (m\<lparr>clock := now, pendings := dropAt k (pendings m)\<rparr>))"
proof -
  let ?m' = "timerCallback now i t (m\<lparr>clock := now, pendings := dropAt k (pendings m)\<rparr>)"
  have pi: "proxyOf (pendings m ! k) = i" using assms(5) by simp
  have i: "i < length (proxies m)" using pending_proxy_bound[OF assms(1,4)] pi by simp
  have "waitOk (proxies m) (pendings m ! k)"
    using assms(2) nth_mem[OF assms(4)] by (simp add: waitsOk_def)
  then have "lastRequestTime (proxies m ! i) + MIN_REQUEST_INTERVAL_MS \<le> setAt + delay"
    unfolding assms(5) by (rule waitOk_due)
  then have due: "lastRequestTime (proxies m ! i) + (MIN_REQUEST_INTERVAL_MS - tol) \<le> now"
    using assms(6) by simp
  have px: "proxies ?m' = (proxies m)[i := (proxies m ! i)\<lparr>lastRequestTime := now\<rparr>]"
    by (simp add: timerCallback_def Let_def)
  have tr: "trace ?m' = trace m @ [SetLastRequestTime i now, SendStart i (taskId t)]"
    by (simp add: timerCallback_def Let_def)
  show ?thesis unfolding stampsOk_def
  proof (intro allI impI)
    fix j assume j: "j < length (proxies ?m')"
    have old: "spaced (MIN_REQUEST_INTERVAL_MS - tol) (dispatchTimes j (trace m))"
      "dispatchTimes j (trace m) \<noteq> [] \<longrightarrow>
         last (dispatchTimes j (trace m)) = lastRequestTime (proxies m ! j)"
      using assms(3) j unfolding px by (simp_all add: stampsOk_def)
    show "spaced (MIN_REQUEST_INTERVAL_MS - tol) (dispatchTimes j (trace ?m')) \<and>
          (dispatchTimes j (trace ?m') \<noteq> [] \<longrightarrow>
             last (dispatchTimes j (trace ?m')) = lastRequestTime (proxies ?m' ! j))"
    proof (cases "j = i")
      case True
      have "dispatchTimes i (trace m) \<noteq> [] \<longrightarrow>
          last (dispatchTimes i (trace m)) + (MIN_REQUEST_INTERVAL_MS - tol) \<le> now"
        using old(2) due True by simp
      then have "spaced (MIN_REQUEST_INTERVAL_MS - tol) (dispatchTimes i (trace m) @ [now])"
        using spaced_snoc_last[of "MIN_REQUEST_INTERVAL_MS - tol" "dispatchTimes i (trace m)" now]
          old(1) True by simp
      then show ?thesis using True i unfolding tr px by simp
    next
      case False
      then show ?thesis using old unfolding tr px by simp
    qed
  qed
qed

lemma send_stamps:
  assumes "structOk m" "stampsOk tol m" "k < length (pendings m)" "pendings m ! k = Sending i t"
  shows "stampsOk tol (sendSettled now jitter i t outcome
                     (m\<lparr>clock := now, pendings := dropAt k (pendings m)\<rparr>))"
proof -
  let ?m0 = "m\<lparr>clock := now, pendings := dropAt k (pendings m)\<rparr>"
  let ?m2 = "settledState i t outcome ?m0"
  have pi: "proxyOf (pendings m ! k) = i" using assms(4) by simp
  have i: "i < length (proxies ?m0)" using pending_proxy_bound[OF assms(1,3)] pi by simp
  have lr: "lastRequestTime (settledProxy outcome p) = lastRequestTime p" for p
    by (cases outcome) (simp_all add: settledProxy_def)
  have t2: "stampsOk tol ?m2"
    by (rule stampsOk_frame[OF assms(2)]) (simp_all add: nth_list_update_if lr)
  have t3: "stampsOk tol (emit [CallProcessQueue i] ?m2)"
    by (rule stampsOk_frame[OF t2]) simp_all
  show ?thesis unfolding sendSettled_eq[OF i] Let_def
    using t2 processQueue_stamps[OF t3] by simp
qed

lemma step_stamps:
  assumes "structOk m" "waitsOk m" "stampsOk tol m" "step e m = Some m'" "firesOk tol e m"
  shows "stampsOk tol m'"
proof (cases e)
  case (Submit now jitter key n meth)
  have s: "structOk (m\<lparr>clock := now\<rparr>)" using assms(1) structOk_cong[of "m\<lparr>clock := now\<rparr>" m] by simp
  have t: "stampsOk tol (m\<lparr>clock := now\<rparr>)" by (rule stampsOk_frame[OF assms(3)]) simp_all
  from submit_stamps[OF s t] show ?thesis using assms(4) Submit by (auto split: if_splits)
next
  case (TimerFires now k)
  then show ?thesis using assms(4,5) timer_stamps[OF assms(1,2,3)]
    by (auto split: if_splits pending.splits)
next
  case (SendEnds now jitter k outcome)
  then show ?thesis using assms(4) send_stamps[OF assms(1,3)]
    by (auto split: if_splits pending.splits)
qed

lemma ProxyManager_stamps: "stampsOk tol (ProxyManager n)"
  by (simp add: ProxyManager_def stampsOk_def)

lemma run_stamps:
  "structOk m \<Longrightarrow> waitsOk m \<Longrightarrow> stampsOk tol m \<Longrightarrow> run es m = Some m' \<Longrightarrow>
   timely tol es m \<Longrightarrow> stampsOk tol m'"
proof (induction es arbitrary: m)
  case Nil
  then show ?case by simp
next
  case (Cons e es)
  then obtain m1 where st: "step e m = Some m1" and r: "run es m1 = Some m'"
    by (auto split: option.splits)
  have f: "firesOk tol e m" and tm: "timely tol es m1" using Cons.prems(5) st by simp_all
  from Cons.IH[OF step_struct[OF Cons.prems(1) st] step_waits[OF Cons.prems(1,2) st]
      step_stamps[OF Cons.prems(1,2,3) st f] r tm]
  show ?case .
qed

text \<open>Every run is timely up to some tolerance.\<close>

lemma firesOk_mono: "firesOk tol e m \<Longrightarrow> tol \<le> tol' \<Longrightarrow> firesOk tol' e m"
  by (cases e) (auto split: pending.splits)

lemma timely_mono: "timely tol es m \<Longrightarrow> tol \<le> tol' \<Longrightarrow> timely tol' es m"
  by (induction es arbitrary: m) (auto split: option.splits intro: firesOk_mono)

lemma firesOk_exists: "step e m = Some m' \<Longrightarrow> \<exists>tol. firesOk tol e m"
proof (cases e)
  case (TimerFires now k)
  assume st: "step e m = Some m'"
  then obtain i t setAt delay where p: "k < length (pendings m)" "pendings m ! k = Timer i t setAt delay"
    using TimerFires by (auto split: if_splits pending.splits)
  then have "firesOk (setAt + delay - now) e m" using TimerFires by simp
  then show ?thesis ..
qed simp_all

lemma timely_exists: "run es m = Some m' \<Longrightarrow> \<exists>tol. timely tol es m"
proof (induction es arbitrary: m)
  case Nil
  then show ?case by simp
next
  case (Cons e es)
  then obtain m1 where st: "step e m = Some m1" and r: "run es m1 = Some m'"
    by (auto split: option.splits)
  obtain a where a: "firesOk a e m" using firesOk_exists[OF st] ..
  obtain b where b: "timely b es m1" using Cons.IH[OF r] ..
  have "firesOk (max a b) e m" using firesOk_mono[OF a] by simp
  moreover have "timely (max a b) es m1" using timely_mono[OF b] by simp
  ultimately have "timely (max a b) (e # es) m" using st by simp
  then show ?case ..
qed

subsection \<open>Every task is in one place\<close>

lemma settledIds_append [simp]: "settledIds (es @ es') = settledIds es @ settledIds es'"
  by (induction es rule: settledIds.induct) auto

lemma dequeuedIds_append [simp]: "dequeuedIds (es @ es') = dequeuedIds es @ dequeuedIds es'"
  by (induction es rule: dequeuedIds.induct) auto

lemma startedIds_append [simp]: "startedIds (es @ es') = startedIds es @ startedIds es'"
  by (induction es rule: startedIds.induct) auto

lemma ids_settleEffects [simp]:
  "settledIds (settleEffects i t outcome p) = [taskId t]"
  "dequeuedIds (settleEffects i t outcome p) = []"
  "startedIds (settleEffects i t outcome p) = []"
  by (cases outcome; auto simp: settleEffects_def)+

lemma queuedIds_update:
  "i < length ps \<Longrightarrow>
   queuedIds (ps[i := p']) + mset (map taskId (requestQueue (ps ! i)))
     = queuedIds ps + mset (map taskId (requestQueue p'))"
proof (induction ps arbitrary: i)
  case Nil
  then show ?case by simp
next
  case (Cons p ps)
  show ?case
  proof (cases i)
    case 0
    then show ?thesis by (simp add: queuedIds_def)
  next
    case (Suc j)
    then have "j < length ps" using Cons.prems by simp
    from Cons.IH[OF this] show ?thesis using Suc
      by (simp add: queuedIds_def add.assoc)
  qed
qed

lemma queuedIds_same:
  "requestQueue p' = requestQueue (ps ! i) \<Longrightarrow> queuedIds (ps[i := p']) = queuedIds ps"
proof (cases "i < length ps")
  case True
  assume "requestQueue p' = requestQueue (ps ! i)"
  then show ?thesis using queuedIds_update[OF True, of p'] by simp
next
  case False
  then show ?thesis by (simp add: list_update_beyond)
qed

lemma pendingIds_snoc [simp]:
  "pendingIds (xs @ [x]) = pendingIds xs + {#taskId (taskOf x)#}"
  by (simp add: pendingIds_def)

lemma pendingIds_dropAt:
  "k < length xs \<Longrightarrow> pendingIds (dropAt k xs) + {#taskId (taskOf (xs ! k))#} = pendingIds xs"
proof -
  assume k: "k < length xs"
  have "xs = take k xs @ xs ! k # drop (Suc k) xs" using k by (simp add: id_take_nth_drop)
  then have "pendingIds xs = pendingIds (take k xs @ xs ! k # drop (Suc k) xs)" by simp
  then show ?thesis by (simp add: pendingIds_def dropAt_def)
qed

lemma queued_in_queuedIds:
  "i < length ps \<Longrightarrow> t \<in> set (requestQueue (ps ! i)) \<Longrightarrow> taskId t \<in># queuedIds ps"
proof (induction ps arbitrary: i)
  case Nil
  then show ?case by simp
next
  case (Cons p ps)
  then show ?case by (cases i) (auto simp: queuedIds_def)
qed


lemma subset_add_right: "A \<subseteq># B \<Longrightarrow> A \<subseteq># add_mset x B"
  by (simp add: subseteq_mset_def le_SucI)

lemma subset_drop_left: "add_mset x A \<subseteq># B \<Longrightarrow> A \<subseteq># B"
  by (meson mset_subset_eq_add_mset_cancel subset_add_right subset_mset.order_trans subset_mset.order_refl)

lemma idsOkI:
  assumes "queuedIds (proxies m) + pendingIds (pendings m) + mset (settledIds (trace m))
        = mset [0..<nextTaskId m]"
    and "mset (dequeuedIds (trace m)) \<subseteq># pendingIds (pendings m) + mset (settledIds (trace m))"
    and "set (startedIds (trace m)) \<subseteq> set (dequeuedIds (trace m))"
    and "pendingIds (pendings m) \<subseteq># mset (dequeuedIds (trace m))"
  shows "idsOk m"
  using assms by (simp add: idsOk_def)

lemma idsOkD:
  assumes "idsOk m"
  shows "queuedIds (proxies m) + pendingIds (pendings m) + mset (settledIds (trace m))
        = mset [0..<nextTaskId m]"
    and "mset (dequeuedIds (trace m)) \<subseteq># pendingIds (pendings m) + mset (settledIds (trace m))"
    and "set (startedIds (trace m)) \<subseteq> set (dequeuedIds (trace m))"
    and "pendingIds (pendings m) \<subseteq># mset (dequeuedIds (trace m))"
  using assms by (simp_all add: idsOk_def)

lemma idsOk_cong:
  "queuedIds (proxies m') = queuedIds (proxies m) \<Longrightarrow> pendings m' = pendings m \<Longrightarrow>
   settledIds (trace m') = settledIds (trace m) \<Longrightarrow>
   dequeuedIds (trace m') = dequeuedIds (trace m) \<Longrightarrow>
   startedIds (trace m') = startedIds (trace m) \<Longrightarrow> nextTaskId m' = nextTaskId m \<Longrightarrow>
   idsOk m' = idsOk m"
  by (simp add: idsOk_def)

lemma processQueue_ids:
  assumes "idsOk m"
  shows "idsOk (processQueue now jitter i m)"
proof (cases "canProcess i m")
  case False
  then show ?thesis using assms by (simp add: processQueue_eq)
next
  case True
  let ?p = "proxies m ! i"
  let ?tid = "taskId (hd (requestQueue ?p))"
  let ?m' = "scheduled now jitter i m"
  have i: "i < length (proxies m)" and ne: "requestQueue ?p \<noteq> []"
    using True by (simp_all add: canProcess_def)
  have "mset (map taskId (requestQueue ?p))
      = {#?tid#} + mset (map taskId (tl (requestQueue ?p)))"
    using ne by (cases "requestQueue ?p") simp_all
  then have q: "queuedIds (proxies ?m') + {#?tid#} = queuedIds (proxies m)"
    using queuedIds_update[OF i, of "?p\<lparr>isProcessing := True, requestQueue := tl (requestQueue ?p)\<rparr>"]
    by simp
  note d = idsOkD[OF assms]
  show ?thesis unfolding processQueue_eq using True
  proof (simp del: scheduled_simps, intro idsOkI)
    show "queuedIds (proxies ?m') + pendingIds (pendings ?m') + mset (settledIds (trace ?m'))
        = mset [0..<nextTaskId ?m']"
      using d(1) q[symmetric] by (simp add: ac_simps)
    show "mset (dequeuedIds (trace ?m')) \<subseteq># pendingIds (pendings ?m') + mset (settledIds (trace ?m'))"
      using d(2) by simp
    show "set (startedIds (trace ?m')) \<subseteq> set (dequeuedIds (trace ?m'))"
      using d(3) by auto
    show "pendingIds (pendings ?m') \<subseteq># mset (dequeuedIds (trace ?m'))"
      using d(4) by simp
  qed
qed

lemma submit_ids:
  assumes "structOk m" "idsOk m"
  shows "idsOk (submitTransaction now jitter key n meth m)"
proof -
  let ?m0 = "m\<lparr>nextTaskId := nextTaskId m + 1\<rparr>"
  obtain r m1 where sel: "selectProxy ?m0 = (r, m1)" by (cases "selectProxy ?m0")
  have s0: "structOk ?m0" using assms(1) structOk_cong[of ?m0 m] by simp
  then have c0: "cursorOk ?m0" by (simp add: structOk_def)
  note res = selectProxy_result[OF c0 sel]
  note d = idsOkD[OF assms(2)]
  show ?thesis
  proof (cases r)
    case (Selected i)
    let ?task = "\<lparr>taskId = nextTaskId m, privateKey = key, nonce = n, methodName = meth\<rparr>"
    let ?m2 = "emit [Enqueue i (nextTaskId m)]
                 (updProxy i (\<lambda>p. p\<lparr>requestQueue := requestQueue p @ [?task]\<rparr>) m1)"
    have i: "i < length (proxies m)" using res(7) Selected by simp
    have q: "queuedIds (proxies ?m2) = queuedIds (proxies m) + {#nextTaskId m#}"
      using queuedIds_update[OF i, of "(proxies m ! i)\<lparr>requestQueue := requestQueue (proxies m ! i) @ [?task]\<rparr>"]
        res(1) by simp
    have i2: "idsOk ?m2"
    proof (intro idsOkI)
      show "queuedIds (proxies ?m2) + pendingIds (pendings ?m2) + mset (settledIds (trace ?m2))
          = mset [0..<nextTaskId ?m2]"
        using d(1) q res(1-5) by (simp add: ac_simps)
      show "mset (dequeuedIds (trace ?m2)) \<subseteq># pendingIds (pendings ?m2) + mset (settledIds (trace ?m2))"
        using d(2) res(1-5) by simp
      show "set (startedIds (trace ?m2)) \<subseteq> set (dequeuedIds (trace ?m2))"
        using d(3) res(1-5) by simp
      show "pendingIds (pendings ?m2) \<subseteq># mset (dequeuedIds (trace ?m2))"
        using d(4) res(1-5) by simp
    qed
    have i3: "idsOk (emit [CallProcessQueue i] ?m2)"
      using i2 idsOk_cong[of "emit [CallProcessQueue i] ?m2" ?m2] by simp
    show ?thesis
      unfolding submitTransaction_eq[OF sel] Selected
      using i2 processQueue_ids[OF i3] by (simp add: Let_def)
  next
    case NoHealthy
    let ?m2 = "emit [TaskReject (nextTaskId m) noHealthyError] m1"
    have "idsOk ?m2"
    proof (intro idsOkI)
      show "queuedIds (proxies ?m2) + pendingIds (pendings ?m2) + mset (settledIds (trace ?m2))
          = mset [0..<nextTaskId ?m2]"
        using d(1) res(1-5) by (simp add: ac_simps)
      show "mset (dequeuedIds (trace ?m2)) \<subseteq># pendingIds (pendings ?m2) + mset (settledIds (trace ?m2))"
        using d(2) res(1-5) by (simp add: subset_add_right)
      show "set (startedIds (trace ?m2)) \<subseteq> set (dequeuedIds (trace ?m2))"
        using d(3) res(1-5) by simp
      show "pendingIds (pendings ?m2) \<subseteq># mset (dequeuedIds (trace ?m2))"
        using d(4) res(1-5) by simp
    qed
    then show ?thesis unfolding submitTransaction_eq[OF sel] NoHealthy by simp
  next
    case Thrown
    then show ?thesis using res(7) by simp
  qed
qed

lemma timer_ids:
  assumes "idsOk m" "k < length (pendings m)" "pendings m ! k = Timer i t setAt delay"
  shows "idsOk (timerCallback now i t (m\<lparr>clock := now, pendings := dropAt k (pendings m)\<rparr>))"
proof -
  let ?m' = "timerCallback now i t (m\<lparr>clock := now, pendings := dropAt k (pendings m)\<rparr>)"
  note d = idsOkD[OF assms(1)]
  have px: "proxies ?m' = (proxies m)[i := (proxies m ! i)\<lparr>lastRequestTime := now\<rparr>]"
    by (simp add: timerCallback_def Let_def)
  have pend: "pendings ?m' = dropAt k (pendings m) @ [Sending i t]"
    by (simp add: timerCallback_def Let_def)
  have tr: "trace ?m' = trace m @ [SetLastRequestTime i now, SendStart i (taskId t)]"
    by (simp add: timerCallback_def Let_def)
  have nx: "nextTaskId ?m' = nextTaskId m" by (simp add: timerCallback_def Let_def)
  have q: "queuedIds (proxies ?m') = queuedIds (proxies m)"
    unfolding px by (rule queuedIds_same) simp
  have p: "pendingIds (pendings ?m') = pendingIds (pendings m)"
    unfolding pend using pendingIds_dropAt[OF assms(2)] assms(3) by simp
  have "taskId t \<in># pendingIds (pendings m)"
    using nth_mem[OF assms(2)] assms(3) by (force simp: pendingIds_def)
  then have deq: "taskId t \<in> set (dequeuedIds (trace m))"
    using d(4) by (metis mset_subset_eqD set_mset_mset)
  show ?thesis
  proof (intro idsOkI)
    show "queuedIds (proxies ?m') + pendingIds (pendings ?m') + mset (settledIds (trace ?m'))
        = mset [0..<nextTaskId ?m']"
      using d(1) unfolding q p tr nx by simp
    show "mset (dequeuedIds (trace ?m')) \<subseteq># pendingIds (pendings ?m') + mset (settledIds (trace ?m'))"
      using d(2) unfolding p tr by simp
    show "set (startedIds (trace ?m')) \<subseteq> set (dequeuedIds (trace ?m'))"
      using d(3) deq unfolding tr by simp
    show "pendingIds (pendings ?m') \<subseteq># mset (dequeuedIds (trace ?m'))"
      using d(4) unfolding p tr by simp
  qed
qed

lemma send_ids:
  assumes "structOk m" "idsOk m" "k < length (pendings m)" "pendings m ! k = Sending i t"
  shows "idsOk (sendSettled now jitter i t outcome
                     (m\<lparr>clock := now, pendings := dropAt k (pendings m)\<rparr>))"
proof -
  let ?m0 = "m\<lparr>clock := now, pendings := dropAt k (pendings m)\<rparr>"
  let ?m2 = "settledState i t outcome ?m0"
  have pi: "proxyOf (pendings m ! k) = i" using assms(4) by simp
  have i: "i < length (proxies ?m0)" using pending_proxy_bound[OF assms(1,3)] pi by simp
  note d = idsOkD[OF assms(2)]
  have rq: "requestQueue (settledProxy outcome p) = requestQueue p" for p
    by (cases outcome) (simp_all add: settledProxy_def)
  have q: "queuedIds (proxies ?m2) = queuedIds (proxies m)"
    by (simp add: queuedIds_same rq)
  have p: "pendingIds (pendings ?m2) + {#taskId t#} = pendingIds (pendings m)"
    using pendingIds_dropAt[OF assms(3)] assms(4) by simp
  have i2: "idsOk ?m2"
  proof (intro idsOkI)
    show "queuedIds (proxies ?m2) + pendingIds (pendings ?m2) + mset (settledIds (trace ?m2))
        = mset [0..<nextTaskId ?m2]"
      using d(1) p[symmetric] unfolding q by (simp add: ac_simps)
    show "mset (dequeuedIds (trace ?m2)) \<subseteq># pendingIds (pendings ?m2) + mset (settledIds (trace ?m2))"
      using d(2) p[symmetric] by (simp add: ac_simps)
    show "set (startedIds (trace ?m2)) \<subseteq> set (dequeuedIds (trace ?m2))"
      using d(3) by simp
    show "pendingIds (pendings ?m2) \<subseteq># mset (dequeuedIds (trace ?m2))"
      using d(4) p[symmetric] subset_drop_left[of "taskId t" "pendingIds (pendings ?m2)"] by simp
  qed
  have i3: "idsOk (emit [CallProcessQueue i] ?m2)"
    using i2 idsOk_cong[of "emit [CallProcessQueue i] ?m2" ?m2] by simp
  show ?thesis unfolding sendSettled_eq[OF i] Let_def
    using i2 processQueue_ids[OF i3] by simp
qed

subsection \<open>Reachable states, and the unhealthy proxy\<close>

lemma step_ids:
  assumes "structOk m" "idsOk m" "step e m = Some m'"
  shows "idsOk m'"
proof (cases e)
  case (Submit now jitter key n meth)
  have s: "structOk (m\<lparr>clock := now\<rparr>)" using assms(1) structOk_cong[of "m\<lparr>clock := now\<rparr>" m] by simp
  have t: "idsOk (m\<lparr>clock := now\<rparr>)" using assms(2) idsOk_cong[of "m\<lparr>clock := now\<rparr>" m] by simp
  from submit_ids[OF s t] show ?thesis using assms(3) Submit by (auto split: if_splits)
next
  case (TimerFires now k)
  then show ?thesis using assms(3) timer_ids[OF assms(2)]
    by (auto split: if_splits pending.splits)
next
  case (SendEnds now jitter k outcome)
  then show ?thesis using assms(3) send_ids[OF assms(1,2)]
    by (auto split: if_splits pending.splits)
qed

lemma ProxyManager_ids: "idsOk (ProxyManager n)"
proof -
  have "queuedIds (replicate n newProxy) = {#}"
    by (induction n) (simp_all add: queuedIds_def newProxy_def)
  then show ?thesis by (simp add: ProxyManager_def idsOk_def pendingIds_def)
qed

lemma step_allOk: "allOk m \<Longrightarrow> step e m = Some m' \<Longrightarrow> allOk m'"
  unfolding allOk_def using step_struct step_waits step_ids by blast

lemma run_allOk: "allOk m \<Longrightarrow> run es m = Some m' \<Longrightarrow> allOk m'"
proof (induction es arbitrary: m)
  case Nil
  then show ?case by simp
next
  case (Cons e es)
  then obtain m1 where st: "step e m = Some m1" and r: "run es m1 = Some m'"
    by (auto split: option.splits)
  from Cons.IH[OF step_allOk[OF Cons.prems(1) st] r] show ?case .
qed

lemma reachable_allOk: "run es (ProxyManager n) = Some m \<Longrightarrow> allOk m"
  using run_allOk[of "ProxyManager n" es m]
  by (simp add: allOk_def ProxyManager_struct ProxyManager_waits ProxyManager_ids)

lemma run_length: "run es m = Some m' \<Longrightarrow> length (proxies m') = length (proxies m)"
proof -
  have st: "length (proxies m2) = length (proxies m1)" if "step e m1 = Some m2" for e m1 m2
  proof -
    have pq: "length (proxies (processQueue now jitter i x)) = length (proxies x)" for now jitter i x
      by (simp add: processQueue_eq)
    show ?thesis
    proof (cases e)
      case (Submit now jitter key n meth)
      let ?m0 = "m1\<lparr>clock := now, nextTaskId := nextTaskId m1 + 1\<rparr>"
      obtain r m3 where sel: "selectProxy ?m0 = (r, m3)" by (cases "selectProxy ?m0")
      have "proxies m3 = proxies m1"
        using selectLoop_frame[of 0 ?m0 r m3] sel by (simp add: selectProxy_def)
      then have "length (proxies (submitTransaction now jitter key n meth (m1\<lparr>clock := now\<rparr>)))
          = length (proxies m1)"
        using submitTransaction_eq[of "m1\<lparr>clock := now\<rparr>" r m3 now jitter key n meth] sel
        by (cases r) (simp_all add: Let_def pq)
      then show ?thesis using that Submit by (auto split: if_splits)
    next
      case (TimerFires now k)
      then show ?thesis using that
        by (auto simp: timerCallback_def Let_def split: if_splits pending.splits)
    next
      case (SendEnds now jitter k outcome)
      have "length (proxies (sendSettled now jitter i t outcome x)) = length (proxies x)" for i t x
        by (cases outcome) (simp_all add: sendSettled_def Let_def pq)
      then show ?thesis using that SendEnds
        by (auto split: if_splits pending.splits)
    qed
  qed
  show "run es m = Some m' \<Longrightarrow> length (proxies m') = length (proxies m)"
    by (induction es arbitrary: m) (auto split: option.splits dest: st)
qed

lemma processQueue_other:
  "j \<noteq> i \<Longrightarrow> proxies (processQueue now jitter j m) ! i = proxies m ! i"
  by (simp add: processQueue_eq)

lemma step_frozen:
  assumes "structOk m" "i < length (proxies m)" "\<not> isHealthy (proxies m ! i)"
    and "step e m = Some m'"
  shows "proxies m' ! i = proxies m ! i"
proof -
  have np: "\<not> isProcessing (proxies m ! i)"
    using assms(1,2,3) by (simp add: structOk_def healthOk_def)
  have pk: "proxyOf (pendings m ! k) \<noteq> i" if "k < length (pendings m)" for k
    using pending_isProcessing(1)[OF assms(1) that] np by auto
  show ?thesis
  proof (cases e)
    case (Submit now jitter key n meth)
    let ?mc = "m\<lparr>clock := now\<rparr>"
    let ?m0 = "?mc\<lparr>nextTaskId := nextTaskId ?mc + 1\<rparr>"
    obtain r m1 where sel: "selectProxy ?m0 = (r, m1)" by (cases "selectProxy ?m0")
    have c0: "cursorOk ?m0" using assms(1) by (simp add: structOk_def cursorOk_def)
    note res = selectProxy_result[OF c0 sel]
    have "proxies (submitTransaction now jitter key n meth ?mc) ! i = proxies m ! i"
    proof (cases r)
      case (Selected j)
      then have "j \<noteq> i" using res(7) assms(3) by auto
      then show ?thesis unfolding submitTransaction_eq[OF sel] Selected
        using res(1) by (simp add: Let_def processQueue_other)
    next
      case NoHealthy
      then show ?thesis unfolding submitTransaction_eq[OF sel] using res(1) by simp
    next
      case Thrown
      then show ?thesis using res(7) by simp
    qed
    then show ?thesis using assms(4) Submit by (auto split: if_splits)
  next
    case (TimerFires now k)
    then show ?thesis using assms(4) pk[of k]
      by (auto simp: timerCallback_def Let_def split: if_splits pending.splits)
  next
    case (SendEnds now jitter k outcome)
    have "proxies (sendSettled now jitter j t outcome x) ! i = proxies x ! i"
      if "j \<noteq> i" "j < length (proxies x)" for j t x
      unfolding sendSettled_eq[OF that(2)] using that(1) by (simp add: Let_def processQueue_other)
    then show ?thesis using assms(1,4) SendEnds pk[of k] pending_proxy_bound[OF assms(1), of k]
      by (auto split: if_splits pending.splits)
  qed
qed

lemma run_frozen:
  "structOk m \<Longrightarrow> i < length (proxies m) \<Longrightarrow> \<not> isHealthy (proxies m ! i) \<Longrightarrow>
   run es m = Some m' \<Longrightarrow> proxies m' ! i = proxies m ! i"
proof (induction es arbitrary: m)
  case Nil
  then show ?case by simp
next
  case (Cons e es)
  then obtain m1 where st: "step e m = Some m1" and r: "run es m1 = Some m'"
    by (auto split: option.splits)
  have eq: "proxies m1 ! i = proxies m ! i" using step_frozen[OF Cons.prems(1,2,3) st] .
  have len: "length (proxies m1) = length (proxies m)" using run_length[of "[e]" m m1] st by simp
  from Cons.IH[OF step_struct[OF Cons.prems(1) st] _ _ r] eq len Cons.prems(2,3)
  show ?case by simp
qed

lemma queued_untouched:
  assumes "idsOk m" "i < length (proxies m)" "t \<in> set (requestQueue (proxies m ! i))"
  shows "taskId t \<notin> set (settledIds (trace m))"
    and "taskId t \<notin> set (dequeuedIds (trace m))"
    and "taskId t \<notin> set (startedIds (trace m))"
proof -
  note d = idsOkD[OF assms(1)]
  have q: "taskId t \<in># queuedIds (proxies m)" using queued_in_queuedIds[OF assms(2,3)] .
  have "count (mset [0..<nextTaskId m]) (taskId t) \<le> 1"
    using distinct_upt[of 0 "nextTaskId m"] unfolding distinct_count_atmost_1
    by (simp del: mset_upt split: if_splits)
  then have c: "count (queuedIds (proxies m)) (taskId t)
      + count (pendingIds (pendings m)) (taskId t)
      + count (mset (settledIds (trace m))) (taskId t) \<le> 1"
    using d(1) by (metis count_union)
  have q1: "0 < count (queuedIds (proxies m)) (taskId t)" using q by simp
  have z1: "count (pendingIds (pendings m)) (taskId t) = 0" using c q1 by linarith
  have z2: "count (mset (settledIds (trace m))) (taskId t) = 0" using c q1 by linarith
  note z = z1 z2
  show s: "taskId t \<notin> set (settledIds (trace m))"
    using z2 by (simp add: count_list_0_iff)
  have "count (mset (dequeuedIds (trace m))) (taskId t) = 0"
    using d(2) z by (metis count_union add.right_neutral le_zero_eq mset_subset_eq_count)
  then show dq: "taskId t \<notin> set (dequeuedIds (trace m))"
    by (simp add: count_list_0_iff)
  then show "taskId t \<notin> set (startedIds (trace m))" using d(3) by auto
qed

lemma processQueue_health:
  "failureCount (proxies (processQueue now jitter j m) ! i) = failureCount (proxies m ! i)"
  "isHealthy (proxies (processQueue now jitter j m) ! i) = isHealthy (proxies m ! i)"
  "lastRequestTime (proxies (processQueue now jitter j m) ! i) = lastRequestTime (proxies m ! i)"
  by (simp_all add: processQueue_eq nth_list_update_if)

lemma sendSettled_health:
  assumes "i < length (proxies m)"
  shows "failureCount (proxies (sendSettled now jitter i t outcome m) ! i)
           = failureCount (settledProxy outcome (proxies m ! i))"
    and "isHealthy (proxies (sendSettled now jitter i t outcome m) ! i)
           = isHealthy (settledProxy outcome (proxies m ! i))"
    and "lastRequestTime (proxies (sendSettled now jitter i t outcome m) ! i)
           = lastRequestTime (proxies m ! i)"
  unfolding sendSettled_eq[OF assms] Let_def using assms
  by (cases outcome; simp add: processQueue_health settledProxy_def)+

section \<open>Properties of the submission flow\<close>

declare refetchLoop.simps [simp del]
declare attemptLoop.simps [simp del]

lemma refetchLoop_sendCount:
  "sendCount (snd (refetchLoop fetches a w)) = sendCount w"
proof (induction fetches a w rule: refetchLoop.induct)
  case (1 fetches a w)
  show ?case
  proof (cases "a < MAX_TRANSACTION_RETRIES")
    case False
    then show ?thesis by (simp add: refetchLoop.simps)
  next
    case True
    show ?thesis
    proof (cases "fetches (fetchCount w)")
      case None
      with True "1.IH"[OF True None] show ?thesis
        by (subst refetchLoop.simps) simp
    next
      case (Some n)
      with True show ?thesis by (subst refetchLoop.simps) simp
    qed
  qed
qed

lemma attemptLoop_conflict_step:
  assumes "attempt < MAX_TRANSACTION_RETRIES" "sends (sendCount w) = Threw e" "isNonceError e"
  defines "w1 \<equiv> w\<lparr>sendCount := sendCount w + 1,
                   walletLog := walletLog w @ [Submitted (currentNonce w) False]\<rparr>"
  shows "attemptLoop retryable sends fetches attempt w =
     (if attempt \<ge> MAX_TRANSACTION_RETRIES - 1 then (Failed, snd (refetchLoop fetches 0 w1))
      else attemptLoop retryable sends fetches (attempt + 1) (snd (refetchLoop fetches 0 w1)))"
  using assms(1,2,3) unfolding w1_def
  by (subst attemptLoop.simps) (auto simp: Let_def split: prod.splits)

lemma refetchLoop_first:
  "fetches (fetchCount w) = Some n \<Longrightarrow>
   refetchLoop fetches 0 w =
     (True, w\<lparr>currentNonce := n, fetchCount := fetchCount w + 1,
              walletLog := walletLog w @ [Refetched n]\<rparr>)"
  by (subst refetchLoop.simps) (simp add: MAX_TRANSACTION_RETRIES_def)

lemma all_conflicts_count:
  assumes "\<forall>k. \<exists>e. sends k = Threw e \<and> isNonceError e"
    and "\<forall>k. fetches k \<noteq> None"
  shows "attempt \<le> MAX_TRANSACTION_RETRIES \<Longrightarrow>
     fst (attemptLoop retryable sends fetches attempt w) = Failed \<and>
     sendCount (snd (attemptLoop retryable sends fetches attempt w))
       = sendCount w + (MAX_TRANSACTION_RETRIES - attempt) \<and>
     fetchCount (snd (attemptLoop retryable sends fetches attempt w))
       = fetchCount w + (MAX_TRANSACTION_RETRIES - attempt)"
proof (induction "MAX_TRANSACTION_RETRIES - attempt" arbitrary: attempt w)
  case 0
  then have "\<not> attempt < MAX_TRANSACTION_RETRIES" by simp
  then have "attemptLoop retryable sends fetches attempt w = (Failed, w)"
    by (subst attemptLoop.simps) simp
  then show ?case using 0 by simp
next
  case (Suc d)
  then have lt: "attempt < MAX_TRANSACTION_RETRIES" by simp
  obtain e where e: "sends (sendCount w) = Threw e" "isNonceError e" using assms by blast
  let ?w1 = "w\<lparr>sendCount := sendCount w + 1,
                walletLog := walletLog w @ [Submitted (currentNonce w) False]\<rparr>"
  let ?w2 = "snd (refetchLoop fetches 0 ?w1)"
  obtain n where n: "fetches (fetchCount ?w1) = Some n" using assms(2) by fastforce
  have sc: "sendCount ?w2 = sendCount w + 1" "fetchCount ?w2 = fetchCount w + 1"
    using refetchLoop_first[where fetches = fetches and w = ?w1 and n = n] n by simp_all
  note st = attemptLoop_conflict_step[where sends = sends and w = w and e = e
      and retryable = retryable and fetches = fetches, OF lt e]
  show ?case
  proof (cases "attempt \<ge> MAX_TRANSACTION_RETRIES - 1")
    case True
    then have "MAX_TRANSACTION_RETRIES - attempt = 1" using lt by simp
    then show ?thesis using st True sc by simp
  next
    case False
    have d: "d = MAX_TRANSACTION_RETRIES - (attempt + 1)" using Suc(2) by simp
    have le: "attempt + 1 \<le> MAX_TRANSACTION_RETRIES" using lt by simp
    from Suc(1)[OF d le, of ?w2] st False sc lt show ?thesis by simp
  qed
qed

lemma attemptLoop_unfold:
  "attemptLoop retryable sends fetches attempt w =
     (if attempt < MAX_TRANSACTION_RETRIES then
        (case sends (sendCount w) of
           Sent receipt \<Rightarrow> (Succeeded, afterSuccess w)
         | Threw e \<Rightarrow>
             if attempt \<ge> MAX_TRANSACTION_RETRIES - 1 then (Failed, afterFailure fetches e w)
             else attemptLoop retryable sends fetches (attempt + 1) (afterFailure fetches e w))
      else (Failed, w))"
  by (subst attemptLoop.simps)
     (auto simp: Let_def afterFailure_def afterSuccess_def split: send_outcome.splits prod.splits)

lemma byOne_append:
  "byOne prev (es @ es') = (byOne prev es \<and> byOne (lastSuccess prev es) es')"
  by (induction prev es rule: byOne.induct) auto

lemma lastSuccess_append:
  "lastSuccess prev (es @ es') = lastSuccess (lastSuccess prev es) es'"
  by (induction prev es rule: lastSuccess.induct) auto

lemma refetchLoop_ok: "walletOk w \<Longrightarrow> walletOk (snd (refetchLoop fetches a w))"
proof (induction fetches a w rule: refetchLoop.induct)
  case (1 fetches a w)
  show ?case
  proof (cases "a < MAX_TRANSACTION_RETRIES")
    case False
    then show ?thesis using "1.prems" by (simp add: refetchLoop.simps)
  next
    case True
    show ?thesis
    proof (cases "fetches (fetchCount w)")
      case None
      have "walletOk (w\<lparr>fetchCount := fetchCount w + 1\<rparr>)"
        using "1.prems" by (auto simp: walletOk_def split: option.splits)
      from "1.IH"[OF True None this] True None show ?thesis
        by (subst refetchLoop.simps) simp
    next
      case (Some n)
      with True "1.prems" show ?thesis
        by (subst refetchLoop.simps) (simp add: walletOk_def byOne_append lastSuccess_append)
    qed
  qed
qed

lemma afterFailure_ok: "walletOk w \<Longrightarrow> walletOk (afterFailure fetches e w)"
proof -
  assume ok: "walletOk w"
  have "walletOk (w\<lparr>sendCount := sendCount w + 1,
                 walletLog := walletLog w @ [Submitted (currentNonce w) False]\<rparr>)"
    using ok by (auto simp: walletOk_def byOne_append lastSuccess_append split: option.splits)
  then show ?thesis by (simp add: afterFailure_def Let_def refetchLoop_ok)
qed

lemma afterSuccess_ok: "walletOk w \<Longrightarrow> walletOk (afterSuccess w)"
  by (auto simp: walletOk_def afterSuccess_def byOne_append lastSuccess_append split: option.splits)

lemma attemptLoop_ok:
  "walletOk w \<Longrightarrow> walletOk (snd (attemptLoop retryable sends fetches attempt w))"
proof (induction "MAX_TRANSACTION_RETRIES - attempt" arbitrary: attempt w)
  case 0
  then show ?case by (subst attemptLoop_unfold) simp
next
  case (Suc d)
  then have lt: "attempt < MAX_TRANSACTION_RETRIES" by simp
  have d: "d = MAX_TRANSACTION_RETRIES - (attempt + 1)" using Suc(2) by simp
  show ?case
  proof (cases "sends (sendCount w)")
    case (Sent r)
    then show ?thesis using lt Suc(3) by (subst attemptLoop_unfold) (simp add: afterSuccess_ok)
  next
    case (Threw e)
    from Suc(1)[OF d afterFailure_ok[OF Suc(3)], of fetches e] Threw lt Suc(3)
    show ?thesis by (subst attemptLoop_unfold) (simp add: afterFailure_ok)
  qed
qed

lemma attemptLoop_success:
  "fst (attemptLoop retryable sends fetches attempt w) = Succeeded \<Longrightarrow>
   \<exists>n. last (walletLog (snd (attemptLoop retryable sends fetches attempt w))) = Submitted n True
      \<and> currentNonce (snd (attemptLoop retryable sends fetches attempt w)) = n + 1"
proof (induction "MAX_TRANSACTION_RETRIES - attempt" arbitrary: attempt w)
  case 0
  then have "attemptLoop retryable sends fetches attempt w = (Failed, w)"
    by (subst attemptLoop_unfold) simp
  then show ?case using 0 by simp
next
  case (Suc d)
  then have lt: "attempt < MAX_TRANSACTION_RETRIES" by simp
  have d: "d = MAX_TRANSACTION_RETRIES - (attempt + 1)" using Suc(2) by simp
  show ?case
  proof (cases "sends (sendCount w)")
    case (Sent r)
    then have "attemptLoop retryable sends fetches attempt w = (Succeeded, afterSuccess w)"
      using lt by (subst attemptLoop_unfold) simp
    then show ?thesis by (simp add: afterSuccess_def)
  next
    case (Threw e)
    show ?thesis
    proof (cases "attempt \<ge> MAX_TRANSACTION_RETRIES - 1")
      case True
      then have "attemptLoop retryable sends fetches attempt w = (Failed, afterFailure fetches e w)"
        using lt Threw by (subst attemptLoop_unfold) simp
      then show ?thesis using Suc(3) by simp
    next
      case False
      then have eq: "attemptLoop retryable sends fetches attempt w
          = attemptLoop retryable sends fetches (attempt + 1) (afterFailure fetches e w)"
        using lt Threw by (subst attemptLoop_unfold) simp
      from Suc(1)[OF d, of "afterFailure fetches e w"] Suc(3) show ?thesis
        unfolding eq by simp
    qed
  qed
qed

lemma runWallet_ok:
  "walletOk w \<Longrightarrow> walletOk (snd (runWallet retryable sends fetches k w))"
proof (induction k arbitrary: w)
  case 0
  then show ?case by simp
next
  case (Suc k)
  obtain r w1 where a: "attemptLoop retryable sends fetches 0 w = (r, w1)"
    by (cases "attemptLoop retryable sends fetches 0 w")
  have "walletOk w1" using attemptLoop_ok[OF Suc.prems, of retryable sends fetches 0] a by simp
  from Suc.IH[OF this] a show ?case by (auto simp: Let_def split: prod.splits)
qed

section \<open>Properties of the queue of nonce fetches\<close>

lemma pushedIds_append [simp]: "pushedIds (es @ es') = pushedIds es @ pushedIds es'"
  by (induction es rule: pushedIds.induct) auto
lemma shiftedIds_append [simp]: "shiftedIds (es @ es') = shiftedIds es @ shiftedIds es'"
  by (induction es rule: shiftedIds.induct) auto
lemma calledIds_append [simp]: "calledIds (es @ es') = calledIds es @ calledIds es'"
  by (induction es rule: calledIds.induct) auto
lemma callTimes_append [simp]: "callTimes (es @ es') = callTimes es @ callTimes es'"
  by (induction es rule: callTimes.induct) auto
lemma answeredIds_append [simp]: "answeredIds (es @ es') = answeredIds es @ answeredIds es'"
  by (induction es rule: answeredIds.induct) auto

lemma single_activation:
  assumes "flagOk f" "k < length (activations f)"
  shows "k = 0" "activations f = [activations f ! 0]" "dropAt k (activations f) = []"
    "isProcessingDirectNonceQueue f"
proof -
  have l: "length (activations f) = 1" "isProcessingDirectNonceQueue f"
    using assms by (auto simp: flagOk_def split: if_splits)
  then show "k = 0" using assms(2) by simp
  show a: "activations f = [activations f ! 0]"
    using l(1) by (cases "activations f") auto
  show "dropAt k (activations f) = []"
    using l(1) \<open>k = 0\<close> by (cases "activations f") (auto simp: dropAt_def)
  show "isProcessingDirectNonceQueue f" using l(2) .
qed

lemma idle_activations: "flagOk f \<Longrightarrow> \<not> isProcessingDirectNonceQueue f \<Longrightarrow> activations f = []"
  by (simp add: flagOk_def)

subsection \<open>One invocation at a time, in order\<close>

lemma process_queue:
  assumes "queueOk f"
  shows "queueOk (processDirectNonceQueue now f)"
proof (cases "directProviderNonceQueue f")
  case Nil
  then show ?thesis using assms by (simp add: processDirectNonceQueue_def)
next
  case (Cons e q)
  show ?thesis
  proof (cases "isProcessingDirectNonceQueue f")
    case True
    then show ?thesis using assms Cons by (simp add: processDirectNonceQueue_def)
  next
    case False
    have fl: "flagOk f" and ff: "fifoOk f" using assms by (simp_all add: queueOk_def)
    have acts: "activations f = []" using idle_activations[OF fl False] .
    show ?thesis
      using fl ff Cons False acts
      by (simp add: processDirectNonceQueue_def Let_def queueOk_def flagOk_def fifoOk_def)
  qed
qed

lemma fetch_queue:
  assumes "queueOk f"
  shows "queueOk (fetchNonceViaQueue now addr (f\<lparr>fclock := now\<rparr>))"
proof -
  let ?e = "\<lparr>entryId = nextEntryId f, walletAddress = addr\<rparr>"
  let ?f1 = "f\<lparr>fclock := now, directProviderNonceQueue := directProviderNonceQueue f @ [?e],
                 nextEntryId := nextEntryId f + 1,
                 ftrace := ftrace f @ [QPush (nextEntryId f)]\<rparr>"
  have ok1: "queueOk ?f1"
    using assms by (simp add: queueOk_def flagOk_def fifoOk_def)
  have "fetchNonceViaQueue now addr (f\<lparr>fclock := now\<rparr>) =
      (if \<not> isProcessingDirectNonceQueue f then processDirectNonceQueue now ?f1 else ?f1)"
    by (simp add: fetchNonceViaQueue_def Let_def)
  then show ?thesis using ok1 process_queue[OF ok1, of now] by simp
qed

lemma wakes_queue:
  assumes "queueOk f" "k < length (activations f)" "activations f ! k = Delaying e setAt d"
  shows "queueOk (delayDone now e (f\<lparr>fclock := now, activations := dropAt k (activations f)\<rparr>))"
proof -
  have fl: "flagOk f" and ff: "fifoOk f" using assms(1) by (simp_all add: queueOk_def)
  note sa = single_activation[OF fl assms(2)]
  have acts: "activations f = [Delaying e setAt d]" using sa(1,2) assms(3) by simp
  show ?thesis unfolding delayDone_def queueOk_def
    using fl ff sa(3,4) acts by (simp add: flagOk_def fifoOk_def)
qed

lemma answers_queue:
  assumes "queueOk f" "k < length (activations f)" "activations f ! k = Calling e"
  shows "queueOk (callDone now e answer (f\<lparr>fclock := now, activations := dropAt k (activations f)\<rparr>))"
proof -
  have fl: "flagOk f" and ff: "fifoOk f" using assms(1) by (simp_all add: queueOk_def)
  note sa = single_activation[OF fl assms(2)]
  have acts: "activations f = [Calling e]" using sa(1,2) assms(3) by simp
  let ?f2 = "f\<lparr>fclock := now, activations := [], lastDirectNonceCallTime := now,
      ftrace := ftrace f @
         [case answer of Some n \<Rightarrow> QResolve (entryId e) n | None \<Rightarrow> QReject (entryId e)],
      isProcessingDirectNonceQueue := False\<rparr>"
  have ct: "shiftedIds (ftrace ?f2) = shiftedIds (ftrace f)"
    "pushedIds (ftrace ?f2) = pushedIds (ftrace f)"
    "calledIds (ftrace ?f2) = calledIds (ftrace f)"
    "answeredIds (ftrace ?f2) = answeredIds (ftrace f) @ [entryId e]"
    by (cases answer; simp)+
  have ok2: "queueOk ?f2"
    unfolding queueOk_def flagOk_def fifoOk_def ct
    using ff acts by (simp add: fifoOk_def)
  have "callDone now e answer (f\<lparr>fclock := now, activations := dropAt k (activations f)\<rparr>) =
      (if directProviderNonceQueue f \<noteq> [] then processDirectNonceQueue now ?f2 else ?f2)"
    using sa(3) by (simp add: callDone_def Let_def)
  then show ?thesis using ok2 process_queue[OF ok2, of now] by simp
qed

lemma qstep_queue: "queueOk f \<Longrightarrow> qstep ev f = Some f' \<Longrightarrow> queueOk f'"
proof (cases ev)
  case (Fetch now addr)
  assume "queueOk f" "qstep ev f = Some f'"
  then show ?thesis using Fetch fetch_queue[of f now addr] by auto
next
  case (Wakes now k)
  assume "queueOk f" "qstep ev f = Some f'"
  then show ?thesis using Wakes wakes_queue[of f k]
    by (auto split: if_splits activation.splits)
next
  case (Answers now k answer)
  assume "queueOk f" "qstep ev f = Some f'"
  then show ?thesis using Answers answers_queue[of f k]
    by (auto split: if_splits activation.splits)
qed

lemma newFetcher_queue: "queueOk newFetcher"
  by (simp add: newFetcher_def queueOk_def flagOk_def fifoOk_def)

lemma qrun_queue: "queueOk f \<Longrightarrow> qrun es f = Some f' \<Longrightarrow> queueOk f'"
  by (induction es arbitrary: f) (auto split: option.splits dest: qstep_queue)

subsection \<open>The calls are spaced up to the tolerance of the waits\<close>

lemma process_ok:
  assumes "fetcherOk tol f" "now = fclock f" "0 \<le> tol"
  shows "fetcherOk tol (processDirectNonceQueue now f)"
proof (cases "directProviderNonceQueue f")
  case Nil
  then show ?thesis using assms by (simp add: processDirectNonceQueue_def)
next
  case (Cons e q)
  show ?thesis
  proof (cases "isProcessingDirectNonceQueue f")
    case True
    then show ?thesis using assms Cons by (simp add: processDirectNonceQueue_def)
  next
    case False
    have fl: "flagOk f" and ff: "fifoOk f" and sp: "spacingOk tol f"
      using assms(1) by (simp_all add: fetcherOk_def)
    have acts: "activations f = []" using idle_activations[OF fl False] .
    have old: "\<forall>t \<in> set (callTimes (ftrace f)). t \<le> lastDirectNonceCallTime f"
      using sp acts by (simp add: spacingOk_def callsInFlight_def)
    show ?thesis
    proof (cases "now - lastDirectNonceCallTime f < DIRECT_PROVIDER_CALL_INTERVAL_MS")
      case True
      have eq: "processDirectNonceQueue now f =
          f\<lparr>isProcessingDirectNonceQueue := True, directProviderNonceQueue := q,
            ftrace := ftrace f @ [QShift (entryId e)],
            activations := [Delaying e now
               (DIRECT_PROVIDER_CALL_INTERVAL_MS - (now - lastDirectNonceCallTime f))]\<rparr>"
        using Cons False True acts by (simp add: processDirectNonceQueue_def Let_def)
      show ?thesis unfolding eq fetcherOk_def
        using fl ff sp Cons acts
        by (simp add: flagOk_def fifoOk_def spacingOk_def callsInFlight_def)
    next
      case nd: False
      have eq: "processDirectNonceQueue now f =
          f\<lparr>isProcessingDirectNonceQueue := True, directProviderNonceQueue := q,
            ftrace := ftrace f @ [QShift (entryId e), QCallStart (entryId e) now],
            activations := [Calling e]\<rparr>"
        using Cons False nd acts by (simp add: processDirectNonceQueue_def Let_def)
      have "\<forall>t \<in> set (callTimes (ftrace f)). t + (DIRECT_PROVIDER_CALL_INTERVAL_MS - tol) \<le> now"
        using old nd assms(3) by fastforce
      then have s: "spaced (DIRECT_PROVIDER_CALL_INTERVAL_MS - tol) (callTimes (ftrace f) @ [now])"
        using sp by (simp add: spacingOk_def spaced_snoc)
      show ?thesis unfolding eq fetcherOk_def
        using fl ff sp Cons acts s assms(2)
        by (simp add: flagOk_def fifoOk_def spacingOk_def callsInFlight_def)
    qed
  qed
qed

lemma fetch_ok:
  assumes "fetcherOk tol f" and that: "fclock f \<le> now" and tol: "0 \<le> tol"
  shows "fetcherOk tol (fetchNonceViaQueue now addr (f\<lparr>fclock := now\<rparr>))"
proof -
  let ?e = "\<lparr>entryId = nextEntryId f, walletAddress = addr\<rparr>"
  let ?f1 = "f\<lparr>fclock := now, directProviderNonceQueue := directProviderNonceQueue f @ [?e],
                 nextEntryId := nextEntryId f + 1,
                 ftrace := ftrace f @ [QPush (nextEntryId f)]\<rparr>"
  have ok1: "fetcherOk tol ?f1"
    using assms(1) that
    by (fastforce simp: fetcherOk_def flagOk_def fifoOk_def spacingOk_def callsInFlight_def)
  have "fetchNonceViaQueue now addr (f\<lparr>fclock := now\<rparr>) =
      (if \<not> isProcessingDirectNonceQueue f then processDirectNonceQueue now ?f1 else ?f1)"
    by (simp add: fetchNonceViaQueue_def Let_def)
  then show ?thesis using ok1 process_ok[OF ok1, of now] tol by simp
qed

lemma wakes_ok:
  assumes "fetcherOk tol f" "fclock f \<le> now" "k < length (activations f)"
    "activations f ! k = Delaying e setAt d" "setAt + d \<le> now + tol"
  shows "fetcherOk tol (delayDone now e (f\<lparr>fclock := now, activations := dropAt k (activations f)\<rparr>))"
proof -
  have fl: "flagOk f" and ff: "fifoOk f" and sp: "spacingOk tol f"
    using assms(1) by (simp_all add: fetcherOk_def)
  note sa = single_activation[OF fl assms(3)]
  have acts: "activations f = [Delaying e setAt d]" using sa(1,2) assms(4) by simp
  have old: "\<forall>t \<in> set (callTimes (ftrace f)). t \<le> lastDirectNonceCallTime f"
    using sp acts by (simp add: spacingOk_def callsInFlight_def)
  have due: "lastDirectNonceCallTime f + (DIRECT_PROVIDER_CALL_INTERVAL_MS - tol) \<le> now"
    using sp acts assms(5) by (simp add: spacingOk_def)
  have "\<forall>t \<in> set (callTimes (ftrace f)). t + (DIRECT_PROVIDER_CALL_INTERVAL_MS - tol) \<le> now"
    using old due by fastforce
  then have s: "spaced (DIRECT_PROVIDER_CALL_INTERVAL_MS - tol) (callTimes (ftrace f) @ [now])"
    using sp by (simp add: spacingOk_def spaced_snoc)
  have le: "\<forall>t \<in> set (callTimes (ftrace f)). t \<le> now"
    using sp assms(2) by (fastforce simp: spacingOk_def)
  show ?thesis unfolding delayDone_def fetcherOk_def
    using fl ff sa(3,4) acts s le
    by (simp add: flagOk_def fifoOk_def spacingOk_def callsInFlight_def)
qed

lemma answers_ok:
  assumes "fetcherOk tol f" "fclock f \<le> now" "k < length (activations f)"
    "activations f ! k = Calling e" "0 \<le> tol"
  shows "fetcherOk tol (callDone now e answer (f\<lparr>fclock := now, activations := dropAt k (activations f)\<rparr>))"
proof -
  have fl: "flagOk f" and ff: "fifoOk f" and sp: "spacingOk tol f"
    using assms(1) by (simp_all add: fetcherOk_def)
  note sa = single_activation[OF fl assms(3)]
  have acts: "activations f = [Calling e]" using sa(1,2) assms(4) by simp
  have le: "\<forall>t \<in> set (callTimes (ftrace f)). t \<le> now"
    using sp assms(2) by (fastforce simp: spacingOk_def)
  let ?f2 = "f\<lparr>fclock := now, activations := [], lastDirectNonceCallTime := now,
      ftrace := ftrace f @
         [case answer of Some n \<Rightarrow> QResolve (entryId e) n | None \<Rightarrow> QReject (entryId e)],
      isProcessingDirectNonceQueue := False\<rparr>"
  have ct: "callTimes (ftrace ?f2) = callTimes (ftrace f)"
    "shiftedIds (ftrace ?f2) = shiftedIds (ftrace f)"
    "pushedIds (ftrace ?f2) = pushedIds (ftrace f)"
    "calledIds (ftrace ?f2) = calledIds (ftrace f)"
    "answeredIds (ftrace ?f2) = answeredIds (ftrace f) @ [entryId e]"
    by (cases answer; simp)+
  have ok2: "fetcherOk tol ?f2"
    unfolding fetcherOk_def flagOk_def fifoOk_def spacingOk_def callsInFlight_def ct
    using ff sp acts le by (simp add: fifoOk_def spacingOk_def)
  have "callDone now e answer (f\<lparr>fclock := now, activations := dropAt k (activations f)\<rparr>) =
      (if directProviderNonceQueue f \<noteq> [] then processDirectNonceQueue now ?f2 else ?f2)"
    using sa(3) by (simp add: callDone_def Let_def)
  then show ?thesis using ok2 process_ok[OF ok2, of now] assms(5) by simp
qed

lemma qstep_ok:
  assumes "fetcherOk tol f" "qstep ev f = Some f'" "wakesOk tol ev f" "0 \<le> tol"
  shows "fetcherOk tol f'"
proof (cases ev)
  case (Fetch now addr)
  then show ?thesis using assms fetch_ok[of tol f now addr] by auto
next
  case (Wakes now k)
  then show ?thesis using assms wakes_ok[of tol f now k]
    by (auto split: if_splits activation.splits)
next
  case (Answers now k answer)
  then show ?thesis using assms answers_ok[of tol f now k]
    by (auto split: if_splits activation.splits)
qed

lemma newFetcher_ok: "fetcherOk tol newFetcher"
  by (simp add: newFetcher_def fetcherOk_def flagOk_def fifoOk_def spacingOk_def callsInFlight_def)

lemma qrun_ok:
  "fetcherOk tol f \<Longrightarrow> qrun es f = Some f' \<Longrightarrow> qtimely tol es f \<Longrightarrow> 0 \<le> tol \<Longrightarrow>
   fetcherOk tol f'"
proof (induction es arbitrary: f)
  case Nil
  then show ?case by simp
next
  case (Cons e es)
  then obtain f1 where st: "qstep e f = Some f1" and r: "qrun es f1 = Some f'"
    by (auto split: option.splits)
  have w: "wakesOk tol e f" and tm: "qtimely tol es f1" using Cons.prems(3) st by simp_all
  from Cons.IH[OF qstep_ok[OF Cons.prems(1) st w Cons.prems(4)] r tm Cons.prems(4)]
  show ?case .
qed
section \<open>Properties of the wallet lock\<close>

lemma serial_append:
  "serial a h (es @ es') = (case serial a h es of None \<Rightarrow> None | Some h' \<Rightarrow> serial a h' es')"
  by (induction a h es rule: serial.induct) auto

lemma lockOkI:
  assumes "\<And>k. k < length (invocations s) \<Longrightarrow> pc (invocations s ! k) = Holding \<Longrightarrow>
             walletLocks s (lockAddress (invocations s ! k)) = Some k"
    and "\<And>a k. walletLocks s a = Some k \<Longrightarrow>
             k < length (invocations s) \<and> lockAddress (invocations s ! k) = a
             \<and> pc (invocations s ! k) = Holding"
    and "\<And>a. serial a None (ltrace s) = Some (walletLocks s a)"
  shows "lockOk s"
  using assms unfolding lockOk_def by blast

lemma lockOkD:
  assumes "lockOk s"
  shows "k < length (invocations s) \<Longrightarrow> pc (invocations s ! k) = Holding \<Longrightarrow>
             walletLocks s (lockAddress (invocations s ! k)) = Some k"
    and "walletLocks s a = Some k \<Longrightarrow>
             k < length (invocations s) \<and> lockAddress (invocations s ! k) = a
             \<and> pc (invocations s ! k) = Holding"
    and "serial a None (ltrace s) = Some (walletLocks s a)"
  using assms unfolding lockOk_def by blast+

lemma enterLoop_ok:
  assumes "lockOk s" "k < length (invocations s)" "pc (invocations s ! k) \<noteq> Holding"
  shows "lockOk (enterLoop k s)"
proof (cases "walletLocks s (lockAddress (invocations s ! k))")
  case (Some j)
  define s' where "s' = enterLoop k s"
  have f: "walletLocks s' = walletLocks s" "ltrace s' = ltrace s"
    "invocations s' = (invocations s)[k := (invocations s ! k)\<lparr>pc := Awaiting j\<rparr>]"
    using Some by (simp_all add: s'_def enterLoop_def Let_def)
  have "lockOk s'"
  proof (rule lockOkI)
    fix i assume "i < length (invocations s')" "pc (invocations s' ! i) = Holding"
    then have "i < length (invocations s)" "i \<noteq> k" "pc (invocations s ! i) = Holding"
      unfolding f using assms(2) by (auto simp: nth_list_update split: if_splits)
    then show "walletLocks s' (lockAddress (invocations s' ! i)) = Some i"
      unfolding f using lockOkD(1)[OF assms(1)] by simp
  next
    fix a i assume "walletLocks s' a = Some i"
    then have d: "i < length (invocations s)" "lockAddress (invocations s ! i) = a"
      "pc (invocations s ! i) = Holding"
      unfolding f using lockOkD(2)[OF assms(1), of a i] by simp_all
    then have "i \<noteq> k" using assms(3) by auto
    then show "i < length (invocations s') \<and> lockAddress (invocations s' ! i) = a
             \<and> pc (invocations s' ! i) = Holding"
      unfolding f using d by simp
  next
    fix a show "serial a None (ltrace s') = Some (walletLocks s' a)"
      unfolding f using lockOkD(3)[OF assms(1)] .
  qed
  then show ?thesis by (simp add: s'_def)
next
  case None
  define a0 where "a0 = lockAddress (invocations s ! k)"
  define s' where "s' = enterLoop k s"
  have f: "walletLocks s' = (walletLocks s)(a0 := Some k)" "ltrace s' = ltrace s @ [Acquire k a0]"
    "invocations s' = (invocations s)[k := (invocations s ! k)\<lparr>pc := Holding\<rparr>]"
    using None by (simp_all add: s'_def a0_def enterLoop_def Let_def)
  have "lockOk s'"
  proof (rule lockOkI)
    fix i assume i: "i < length (invocations s')" "pc (invocations s' ! i) = Holding"
    show "walletLocks s' (lockAddress (invocations s' ! i)) = Some i"
    proof (cases "i = k")
      case True
      then show ?thesis unfolding f using assms(2) by (simp add: a0_def)
    next
      case False
      then have h: "i < length (invocations s)" "pc (invocations s ! i) = Holding"
        using i unfolding f by simp_all
      from lockOkD(1)[OF assms(1) h] have w: "walletLocks s (lockAddress (invocations s ! i)) = Some i" .
      then have "lockAddress (invocations s ! i) \<noteq> a0" using None by (auto simp: a0_def)
      then show ?thesis unfolding f using False w by simp
    qed
  next
    fix a i assume w: "walletLocks s' a = Some i"
    show "i < length (invocations s') \<and> lockAddress (invocations s' ! i) = a
             \<and> pc (invocations s' ! i) = Holding"
    proof (cases "a = a0")
      case True
      then have "i = k" using w unfolding f by simp
      then show ?thesis unfolding f using assms(2) True by (simp add: a0_def)
    next
      case False
      then have "walletLocks s a = Some i" using w unfolding f by simp
      from lockOkD(2)[OF assms(1) this] have d: "i < length (invocations s)"
        "lockAddress (invocations s ! i) = a" "pc (invocations s ! i) = Holding" by simp_all
      then have "i \<noteq> k" using assms(3) by auto
      then show ?thesis unfolding f using d by simp
    qed
  next
    fix a show "serial a None (ltrace s') = Some (walletLocks s' a)"
      unfolding f using lockOkD(3)[OF assms(1), of a] None
      by (cases "a = a0") (auto simp: serial_append a0_def)
  qed
  then show ?thesis by (simp add: s'_def)
qed

lemma withWalletLock_ok:
  assumes "lockOk s"
  shows "lockOk (withWalletLock a s)"
proof -
  define s1 where "s1 = s\<lparr>invocations := invocations s @ [\<lparr>lockAddress = a, pc = Entering\<rparr>]\<rparr>"
  have f: "walletLocks s1 = walletLocks s" "ltrace s1 = ltrace s"
    "invocations s1 = invocations s @ [\<lparr>lockAddress = a, pc = Entering\<rparr>]"
    by (simp_all add: s1_def)
  have "lockOk s1"
  proof (rule lockOkI)
    fix i assume "i < length (invocations s1)" "pc (invocations s1 ! i) = Holding"
    then have h: "i < length (invocations s)" "pc (invocations s ! i) = Holding"
      unfolding f by (auto simp: nth_append split: if_splits)
    then show "walletLocks s1 (lockAddress (invocations s1 ! i)) = Some i"
      unfolding f using lockOkD(1)[OF assms h] by (simp add: nth_append)
  next
    fix b i assume "walletLocks s1 b = Some i"
    then have "walletLocks s b = Some i" unfolding f .
    from lockOkD(2)[OF assms this]
    show "i < length (invocations s1) \<and> lockAddress (invocations s1 ! i) = b
             \<and> pc (invocations s1 ! i) = Holding"
      unfolding f by (simp add: nth_append)
  next
    fix b show "serial b None (ltrace s1) = Some (walletLocks s1 b)"
      unfolding f using lockOkD(3)[OF assms] .
  qed
  moreover have "length (invocations s) < length (invocations s1)"
    "pc (invocations s1 ! length (invocations s)) \<noteq> Holding"
    unfolding f by simp_all
  ultimately have "lockOk (enterLoop (length (invocations s)) s1)" by (rule enterLoop_ok)
  then show ?thesis by (simp add: withWalletLock_def s1_def)
qed

lemma operationStep_ok:
  assumes "lockOk s" "k < length (invocations s)" "pc (invocations s ! k) = Holding"
  shows "lockOk (operationStep k s)"
proof -
  define a0 where "a0 = lockAddress (invocations s ! k)"
  define s' where "s' = operationStep k s"
  have f: "walletLocks s' = walletLocks s" "ltrace s' = ltrace s @ [Touch k a0]"
    "invocations s' = invocations s"
    by (simp_all add: s'_def a0_def operationStep_def)
  have wk: "walletLocks s a0 = Some k" using lockOkD(1)[OF assms] by (simp add: a0_def)
  have "lockOk s'"
  proof (rule lockOkI)
    fix i assume "i < length (invocations s')" "pc (invocations s' ! i) = Holding"
    then show "walletLocks s' (lockAddress (invocations s' ! i)) = Some i"
      unfolding f using lockOkD(1)[OF assms(1)] by simp
  next
    fix a i assume "walletLocks s' a = Some i"
    then show "i < length (invocations s') \<and> lockAddress (invocations s' ! i) = a
             \<and> pc (invocations s' ! i) = Holding"
      unfolding f using lockOkD(2)[OF assms(1)] by simp
  next
    fix a show "serial a None (ltrace s') = Some (walletLocks s' a)"
      unfolding f using lockOkD(3)[OF assms(1), of a] wk
      by (cases "a = a0") (auto simp: serial_append)
  qed
  then show ?thesis by (simp add: s'_def)
qed

lemma releaseLock_ok:
  assumes "lockOk s" "k < length (invocations s)" "pc (invocations s ! k) = Holding"
  shows "lockOk (releaseLock k s)"
proof -
  define a0 where "a0 = lockAddress (invocations s ! k)"
  define s' where "s' = releaseLock k s"
  have f: "walletLocks s' = (walletLocks s)(a0 := None)" "ltrace s' = ltrace s @ [Release k a0]"
    "invocations s' = (invocations s)[k := (invocations s ! k)\<lparr>pc := Returned\<rparr>]"
    by (simp_all add: s'_def a0_def releaseLock_def Let_def)
  have wk: "walletLocks s a0 = Some k" using lockOkD(1)[OF assms] by (simp add: a0_def)
  have "lockOk s'"
  proof (rule lockOkI)
    fix i assume i: "i < length (invocations s')" "pc (invocations s' ! i) = Holding"
    then have ne: "i \<noteq> k" unfolding f using assms(2) by auto
    then have h: "i < length (invocations s)" "pc (invocations s ! i) = Holding"
      using i unfolding f by simp_all
    from lockOkD(1)[OF assms(1) h] have w: "walletLocks s (lockAddress (invocations s ! i)) = Some i" .
    then have "lockAddress (invocations s ! i) \<noteq> a0" using wk ne by auto
    then show "walletLocks s' (lockAddress (invocations s' ! i)) = Some i"
      unfolding f using ne w by simp
  next
    fix a i assume w: "walletLocks s' a = Some i"
    then have na: "a \<noteq> a0" and ws: "walletLocks s a = Some i"
      unfolding f by (auto split: if_splits)
    from lockOkD(2)[OF assms(1) ws] have d: "i < length (invocations s)"
      "lockAddress (invocations s ! i) = a" "pc (invocations s ! i) = Holding" by simp_all
    then have "i \<noteq> k" using na by (auto simp: a0_def)
    then show "i < length (invocations s') \<and> lockAddress (invocations s' ! i) = a
             \<and> pc (invocations s' ! i) = Holding"
      unfolding f using d by simp
  next
    fix a show "serial a None (ltrace s') = Some (walletLocks s' a)"
      unfolding f using lockOkD(3)[OF assms(1), of a] wk
      by (cases "a = a0") (auto simp: serial_append)
  qed
  then show ?thesis by (simp add: s'_def)
qed

lemma lstep_ok:
  assumes "lockOk s" "lstep e s = Some s'"
  shows "lockOk s'"
proof (cases e)
  case (Calls a)
  then show ?thesis using assms withWalletLock_ok by auto
next
  case (Resumes k)
  then have "k < length (invocations s)" "pc (invocations s ! k) \<noteq> Holding" "s' = enterLoop k s"
    using assms(2) by (auto split: if_splits lock_pc.splits)
  then show ?thesis using enterLoop_ok[OF assms(1)] by simp
next
  case (Works k)
  then show ?thesis using assms operationStep_ok by (auto split: if_splits)
next
  case (Ends k)
  then show ?thesis using assms releaseLock_ok by (auto split: if_splits)
qed

lemma newLocks_ok: "lockOk newLocks"
  by (simp add: newLocks_def lockOk_def)

lemma lrun_ok: "lockOk s \<Longrightarrow> lrun es s = Some s' \<Longrightarrow> lockOk s'"
  by (induction es arbitrary: s) (auto split: option.splits dest: lstep_ok)

text \<open>
  In every state the lock can reach, at most one invocation is inside \<^verbatim>\<open>operation()\<close>
  for a wallet, and the effects on the wallet are serial: the critical sections of one
  wallet never overlap, and only the invocation holding the lock works on the wallet.
\<close>

lemma wallet_lock_mutual_exclusion:
  assumes "lrun es newLocks = Some s"
  shows "length (holders s a) \<le> 1 \<and> serial a None (ltrace s) = Some (walletLocks s a)"
proof -
  have ok: "lockOk s" using lrun_ok[OF newLocks_ok assms] .
  have h: "walletLocks s a = Some k" if "k \<in> set (holders s a)" for k
    using that lockOkD(1)[OF ok, of k] by (simp add: holders_def)
  have one: "k = j" if "k \<in> set (holders s a)" "j \<in> set (holders s a)" for k j
    using h[OF that(1)] h[OF that(2)] by simp
  have d: "distinct (holders s a)" by (simp add: holders_def)
  have "length (holders s a) \<le> 1"
  proof (cases "holders s a")
    case Nil
    then show ?thesis by simp
  next
    case (Cons x xs)
    then have "xs = []" using one[of x] d by (cases xs) auto
    then show ?thesis using Cons by simp
  qed
  then show ?thesis using ok by (simp add: lockOk_def)
qed

lemma two_callers_serial:
  "map pc (invocations afterTwoCallers) = [Returned, Holding, Holding]
   \<and> holders afterTwoCallers ''0xaaa'' = [1]
   \<and> serial ''0xaaa'' None (ltrace afterTwoCallers) = Some (Some 1)"
  unfolding afterTwoCallers_def by code_simp

subsection \<open>Health of a proxy\<close>

lemma afterTwoFailures_run: "run twoFailures (ProxyManager 1) = Some afterTwoFailures"
  unfolding afterTwoFailures_def by code_simp

lemma demoted_step: "step thirdFailure afterTwoFailures = Some demoted"
  unfolding demoted_def by code_simp

lemma demoted_run: "run (twoFailures @ [thirdFailure]) (ProxyManager 1) = Some demoted"
  unfolding demoted_def afterTwoFailures_def by code_simp

text \<open>
  Claim C4. In every state the manager can reach, every proxy is healthy exactly while
  its failure counter is below \<^verbatim>\<open>MAX_PROXY_FAILURES\<close> (3), and \<^verbatim>\<open>_selectProxy\<close> never
  returns an unhealthy proxy. When a send of proxy \<open>i\<close> ends with an error, the proxy's
  failure counter goes up by one, and the proxy is unhealthy after the handler exactly
  when the counter has reached 3.
\<close>

theorem failure_threshold:
  assumes "run es (ProxyManager n) = Some m"
  shows "(\<forall>j < length (proxies m).
            isHealthy (proxies m ! j) \<longleftrightarrow> failureCount (proxies m ! j) < MAX_PROXY_FAILURES)
       \<and> (\<forall>j. \<not> isHealthy (proxies m ! j) \<longrightarrow> fst (selectProxy m) \<noteq> Selected j)
       \<and> (\<forall>k i t now jitter e m'.
            k < length (pendings m) \<and> pendings m ! k = Sending i t
            \<and> step (SendEnds now jitter k (Threw e)) m = Some m'
            \<longrightarrow> failureCount (proxies m' ! i) = failureCount (proxies m ! i) + 1
              \<and> (\<not> isHealthy (proxies m' ! i)
                   \<longleftrightarrow> failureCount (proxies m' ! i) = MAX_PROXY_FAILURES))"
proof -
  have ok: "structOk m" using reachable_allOk[OF assms(1)] by (simp add: allOk_def)
  have b: "\<forall>j < length (proxies m).
            isHealthy (proxies m ! j) \<longleftrightarrow> failureCount (proxies m ! j) < MAX_PROXY_FAILURES"
    using ok by (simp add: structOk_def healthOk_def)
  have c: "\<forall>j. \<not> isHealthy (proxies m ! j) \<longrightarrow> fst (selectProxy m) \<noteq> Selected j"
  proof (intro allI impI notI)
    fix j assume nh: "\<not> isHealthy (proxies m ! j)" and s: "fst (selectProxy m) = Selected j"
    have "cursorOk m" using ok by (simp add: structOk_def)
    moreover have "selectProxy m = (Selected j, snd (selectProxy m))"
      using s by (cases "selectProxy m") simp
    ultimately show False using selectProxy_result(7)[of m "Selected j" "snd (selectProxy m)"] nh
      by simp
  qed
  have a: "failureCount (proxies m' ! i) = failureCount (proxies m ! i) + 1
              \<and> (\<not> isHealthy (proxies m' ! i)
                   \<longleftrightarrow> failureCount (proxies m' ! i) = MAX_PROXY_FAILURES)"
    if k: "k < length (pendings m)" and p: "pendings m ! k = Sending i t"
      and st: "step (SendEnds now jitter k (Threw e)) m = Some m'"
    for k i t now jitter e m'
  proof -
    let ?m0 = "m\<lparr>clock := now, pendings := dropAt k (pendings m)\<rparr>"
    have pi: "proxyOf (pendings m ! k) = i" using p by simp
    have i: "i < length (proxies m)" using pending_proxy_bound[OF ok k] pi by simp
    have proc: "isProcessing (proxies m ! i)" using pending_isProcessing(1)[OF ok k] pi by simp
    have hp: "isHealthy (proxies m ! i)" "failureCount (proxies m ! i) < MAX_PROXY_FAILURES"
      using ok i proc by (auto simp: structOk_def healthOk_def)
    have m': "m' = sendSettled now jitter i t (Threw e) ?m0"
      using k p st by (auto split: if_splits)
    have i0: "i < length (proxies ?m0)" using i by simp
    have fc: "failureCount (proxies m' ! i) = failureCount (proxies m ! i) + 1"
      unfolding m' sendSettled_health(1)[OF i0] by (simp add: settledProxy_def)
    have h: "isHealthy (proxies m' ! i) \<longleftrightarrow> \<not> failureCount (proxies m ! i) + 1 \<ge> MAX_PROXY_FAILURES"
      unfolding m' sendSettled_health(2)[OF i0] using hp by (simp add: settledProxy_def)
    show ?thesis using h fc hp by auto
  qed
  show ?thesis using a b c by blast
qed

theorem failure_threshold_witness:
  "failureCount (proxies afterTwoFailures ! 0) = 2 \<and> isHealthy (proxies afterTwoFailures ! 0)
   \<and> fst (selectProxy afterTwoFailures) = Selected 0
   \<and> failureCount (proxies demoted ! 0) = 3 \<and> \<not> isHealthy (proxies demoted ! 0)
   \<and> fst (selectProxy demoted) \<noteq> Selected 0"
proof -
  have k: "0 < length (pendings afterTwoFailures)" by code_simp
  have p: "pendings afterTwoFailures ! 0 =
      Sending 0 \<lparr>taskId = 2, privateKey = ''0xkey'', nonce = 9, methodName = ''0x05632f40''\<rparr>"
    by code_simp
  have s: "step (SendEnds 1600 2 0 (Threw failingError)) afterTwoFailures = Some demoted"
    using demoted_step by (simp add: thirdFailure_def)
  have two: "failureCount (proxies afterTwoFailures ! 0) = 2" "isHealthy (proxies afterTwoFailures ! 0)"
    "fst (selectProxy afterTwoFailures) = Selected 0"
    by code_simp+
  have d: "\<not> isHealthy (proxies demoted ! 0)" by code_simp
  from failure_threshold[OF afterTwoFailures_run] k p s
  have "failureCount (proxies demoted ! 0) = failureCount (proxies afterTwoFailures ! 0) + 1"
    by blast
  moreover from failure_threshold[OF demoted_run] d
  have "fst (selectProxy demoted) \<noteq> Selected 0" by blast
  ultimately show ?thesis using two d by simp
qed

subsection \<open>Round-robin selection\<close>

text \<open>
  Claim C5. \<^verbatim>\<open>_selectProxy\<close> starts at the cursor and looks at the proxies in cyclic
  order. When some proxy is healthy it returns the first healthy one, \<open>k\<close> places after
  the cursor with \<open>k\<close> below the number of proxies, and leaves the cursor one place
  after the proxy returned: the cursor moves once for every proxy looked at, healthy or
  not. When no proxy is healthy it looks at each proxy once, returns \<^verbatim>\<open>null\<close>, and
  the cursor is back where it started. The list of proxies is never changed, and the
  cursor stays inside it.
\<close>

theorem selectProxy_round_robin:
  assumes "cursorOk m"
  shows "(if \<exists>j < length (proxies m). isHealthy (proxies m ! j)
          then \<exists>k < length (proxies m).
                 isHealthy (proxies m ! ((currentProxyIndex m + k) mod length (proxies m)))
                 \<and> (\<forall>k' < k. \<not> isHealthy
                       (proxies m ! ((currentProxyIndex m + k') mod length (proxies m))))
                 \<and> selectProxy m =
                     (Selected ((currentProxyIndex m + k) mod length (proxies m)),
                      m\<lparr>currentProxyIndex :=
                          (currentProxyIndex m + k + 1) mod length (proxies m)\<rparr>)
          else selectProxy m = (NoHealthy, m))
         \<and> proxies (snd (selectProxy m)) = proxies m
         \<and> cursorOk (snd (selectProxy m))"
proof -
  let ?n = "length (proxies m)"
  let ?c = "currentProxyIndex m"
  have fr: "proxies (snd (selectProxy m)) = proxies m"
    using selectLoop_frame[of 0 m "fst (selectProxy m)" "snd (selectProxy m)"]
    by (simp add: selectProxy_def)
  show ?thesis
  proof (cases "\<exists>j < ?n. isHealthy (proxies m ! j)")
    case True
    then obtain j where j: "j < ?n" "isHealthy (proxies m ! j)" by blast
    then have c: "?c < ?n" using assms by (auto simp: cursorOk_def)
    from first_healthy_offset[of ?c ?n j "\<lambda>j. isHealthy (proxies m ! j)", OF c j]
    obtain k where k: "k < ?n" "isHealthy (proxies m ! ((?c + k) mod ?n))"
      "\<forall>k' < k. \<not> isHealthy (proxies m ! ((?c + k') mod ?n))" by blast
    have sel: "selectProxy m =
        (Selected ((?c + k) mod ?n), m\<lparr>currentProxyIndex := (?c + k + 1) mod ?n\<rparr>)"
      unfolding selectProxy_def using selectLoop_found[OF c _ k(2) k(3), of 0] k(1) by simp
    have pos: "0 < length (proxies m)" using c by (cases "proxies m") auto
    have "cursorOk (snd (selectProxy m))"
      using sel pos by (simp add: cursorOk_def)
    then show ?thesis using True k sel fr by auto
  next
    case False
    have sel: "selectProxy m = (NoHealthy, m)"
    proof (cases "proxies m = []")
      case True
      then show ?thesis by (simp add: selectProxy_def selectLoop.simps)
    next
      case ne: False
      then have c: "?c < ?n" using assms by (auto simp: cursorOk_def)
      have pos: "0 < ?n" using c by (cases "proxies m") auto
      have "\<forall>k < ?n - 0. \<not> isHealthy (proxies m ! ((?c + k) mod ?n))"
        using False mod_less_divisor[OF pos] by blast
      from selectLoop_none[OF c _ this] c show ?thesis
        by (simp add: selectProxy_def)
    qed
    then show ?thesis using False fr assms by simp
  qed
qed

theorem selectProxy_round_robin_witness:
  "cursorOk pool3
   \<and> selectProxy pool3 = (Selected 1, pool3\<lparr>currentProxyIndex := 2\<rparr>)
   \<and> proxies (snd (selectProxy pool3)) = proxies pool3"
proof -
  have c: "cursorOk pool3" by code_simp
  have s: "selectProxy pool3 = (Selected 1, pool3\<lparr>currentProxyIndex := 2\<rparr>)" by code_simp
  from selectProxy_round_robin[OF c] c s show ?thesis by simp
qed

subsection \<open>Spacing of the sends of a proxy\<close>

lemma sendUnderWay_run: "run firstStamp (ProxyManager 1) = Some sendUnderWay"
  unfolding sendUnderWay_def by code_simp

lemma rearmed_step: "step firstSendEnds sendUnderWay = Some rearmed"
  unfolding rearmed_def by code_simp

lemma rearmed_run: "run (firstStamp @ [firstSendEnds]) (ProxyManager 1) = Some rearmed"
  unfolding rearmed_def sendUnderWay_def by code_simp

lemma stampedTwice_run: "run earlyTimers (ProxyManager 1) = Some stampedTwice"
  unfolding stampedTwice_def rearmed_def sendUnderWay_def by code_simp

text \<open>
  Claim C6. In every state the manager can reach, the delay of every pending timer of
  proxy \<open>i\<close> is \<open>max 0 (MIN_REQUEST_INTERVAL_MS - (now - lastRequestTime))\<close> plus a jitter
  in \<open>[0, 10)\<close>, where \<open>now\<close> is the time at which \<^verbatim>\<open>_processQueue\<close> took the task off
  the queue. When a send of proxy \<open>i\<close> ends, the proxy is still healthy and a task waits,
  the head task goes into a timer with that delay, computed from the time the send
  ended. The stamps of a proxy (the values \<^verbatim>\<open>Date.now()\<close> gave when its sends were
  started) are at least \<^verbatim>\<open>MIN_REQUEST_INTERVAL_MS\<close> apart up to the tolerance of the
  timers: if no timer of the run fired more than \<open>tol\<close> before its delay had passed, any
  two consecutive stamps are at least \<open>MIN_REQUEST_INTERVAL_MS - tol\<close> apart. Every run
  has such a tolerance.
\<close>

theorem dispatch_spacing:
  assumes "run es (ProxyManager n) = Some m"
  shows "(\<forall>i t setAt delay. Timer i t setAt delay \<in> set (pendings m) \<longrightarrow>
            (\<exists>jitter. 0 \<le> jitter \<and> jitter < 10 \<and>
               delay = max 0 (MIN_REQUEST_INTERVAL_MS - (setAt - lastRequestTime (proxies m ! i)))
                         + jitter))
       \<and> (\<forall>k i t now jitter outcome m'.
            k < length (pendings m) \<and> pendings m ! k = Sending i t
            \<and> step (SendEnds now jitter k outcome) m = Some m'
            \<and> isHealthy (proxies m' ! i) \<and> requestQueue (proxies m ! i) \<noteq> []
            \<longrightarrow> pendings m' = dropAt k (pendings m) @
                  [Timer i (hd (requestQueue (proxies m ! i))) now
                     (max 0 (MIN_REQUEST_INTERVAL_MS - (now - lastRequestTime (proxies m ! i)))
                        + jitter)])
       \<and> (\<forall>tol. timely tol es (ProxyManager n) \<longrightarrow>
            (\<forall>i < n. spaced (MIN_REQUEST_INTERVAL_MS - tol) (dispatchTimes i (trace m))))
       \<and> (\<exists>tol. timely tol es (ProxyManager n))"
proof -
  have ok: "structOk m" "waitsOk m" using reachable_allOk[OF assms] by (simp_all add: allOk_def)
  have len: "length (proxies m) = n"
    using run_length[OF assms] by (simp add: ProxyManager_def)
  have a: "\<exists>jitter. 0 \<le> jitter \<and> jitter < 10 \<and>
       delay = max 0 (MIN_REQUEST_INTERVAL_MS - (setAt - lastRequestTime (proxies m ! i))) + jitter"
    if "Timer i t setAt delay \<in> set (pendings m)" for i t setAt delay
  proof -
    let ?w = "max 0 (MIN_REQUEST_INTERVAL_MS - (setAt - lastRequestTime (proxies m ! i)))"
    have "\<forall>x \<in> set (pendings m). waitOk (proxies m) x" using ok(2) by (simp only: waitsOk_def)
    then have "waitOk (proxies m) (Timer i t setAt delay)" using that by (rule bspec)
    then have "?w \<le> delay \<and> delay < ?w + 10" by (simp only: waitOk.simps Let_def)
    then have "0 \<le> delay - ?w \<and> delay - ?w < 10 \<and> delay = ?w + (delay - ?w)" by simp
    then show ?thesis by (rule exI[of _ "delay - ?w"])
  qed
  have b: "pendings m' = dropAt k (pendings m) @
                  [Timer i (hd (requestQueue (proxies m ! i))) now
                     (max 0 (MIN_REQUEST_INTERVAL_MS - (now - lastRequestTime (proxies m ! i)))
                        + jitter)]"
    if k: "k < length (pendings m)" and p: "pendings m ! k = Sending i t"
      and st: "step (SendEnds now jitter k outcome) m = Some m'"
      and h: "isHealthy (proxies m' ! i)" and q: "requestQueue (proxies m ! i) \<noteq> []"
    for k i t now jitter outcome m'
  proof -
    let ?m0 = "m\<lparr>clock := now, pendings := dropAt k (pendings m)\<rparr>"
    let ?m2 = "settledState i t outcome ?m0"
    let ?m3 = "emit [CallProcessQueue i] ?m2"
    have pi: "proxyOf (pendings m ! k) = i" using p by simp
    have i: "i < length (proxies m)" using pending_proxy_bound[OF ok(1) k] pi by simp
    then have i0: "i < length (proxies ?m0)" by simp
    have m': "m' = sendSettled now jitter i t outcome ?m0"
      using k p st by (auto split: if_splits)
    have hs: "isHealthy (settledProxy outcome (proxies m ! i))"
      using h unfolding m' sendSettled_health(2)[OF i0] by simp
    have sp: "requestQueue (settledProxy outcome x) = requestQueue x"
      "lastRequestTime (settledProxy outcome x) = lastRequestTime x"
      "\<not> isProcessing (settledProxy outcome x)" for x
      by (cases outcome; simp add: settledProxy_def)+
    have cp: "canProcess i ?m3" using i hs q by (simp add: canProcess_def sp)
    have "m' = scheduled now jitter i ?m3"
      unfolding m' sendSettled_eq[OF i0] Let_def using i hs q cp
      by (simp add: sp processQueue_eq)
    then show ?thesis using i by (simp add: sp)
  qed
  have c: "spaced (MIN_REQUEST_INTERVAL_MS - tol) (dispatchTimes i (trace m))"
    if "timely tol es (ProxyManager n)" "i < n" for tol i
    using run_stamps[OF ProxyManager_struct ProxyManager_waits ProxyManager_stamps assms that(1)]
      that(2) len by (simp add: stampsOk_def)
  have d: "\<exists>tol. timely tol es (ProxyManager n)" using timely_exists[OF assms] .
  show ?thesis
  proof (intro conjI allI impI)
    fix i t setAt delay
    assume "Timer i t setAt delay \<in> set (pendings m)"
    then show "\<exists>jitter. 0 \<le> jitter \<and> jitter < 10 \<and>
       delay = max 0 (MIN_REQUEST_INTERVAL_MS - (setAt - lastRequestTime (proxies m ! i))) + jitter"
      by (rule a)
  next
    fix k i t now jitter outcome m'
    assume "k < length (pendings m) \<and> pendings m ! k = Sending i t
            \<and> step (SendEnds now jitter k outcome) m = Some m'
            \<and> isHealthy (proxies m' ! i) \<and> requestQueue (proxies m ! i) \<noteq> []"
    then show "pendings m' = dropAt k (pendings m) @
                  [Timer i (hd (requestQueue (proxies m ! i))) now
                     (max 0 (MIN_REQUEST_INTERVAL_MS - (now - lastRequestTime (proxies m ! i)))
                        + jitter)]"
      by (elim conjE) (rule b)
  next
    fix tol i
    assume "timely tol es (ProxyManager n)" "i < n"
    then show "spaced (MIN_REQUEST_INTERVAL_MS - tol) (dispatchTimes i (trace m))" by (rule c)
  next
    show "\<exists>tol. timely tol es (ProxyManager n)" by (rule d)
  qed
qed

theorem dispatch_spacing_witness:
  "pendings rearmed =
     dropAt 0 (pendings sendUnderWay) @
       [Timer 0 (hd (requestQueue (proxies sendUnderWay ! 0))) 1050
          (max 0 (MIN_REQUEST_INTERVAL_MS - (1050 - lastRequestTime (proxies sendUnderWay ! 0)))
             + 1 / 2)]
   \<and> pendings rearmed = [Timer 0 task1 1050 (107 / 2)]
   \<and> lastRequestTime (proxies rearmed ! 0) = 1003
   \<and> (\<exists>jitter. 0 \<le> jitter \<and> jitter < 10 \<and>
        (107 / 2 :: real) = max 0 (MIN_REQUEST_INTERVAL_MS - (1050 - 1003)) + jitter)
   \<and> timely (3 / 2) earlyTimers (ProxyManager 1)
   \<and> dispatchTimes 0 (trace stampedTwice) = [1003, 1102]
   \<and> spaced (MIN_REQUEST_INTERVAL_MS - 3 / 2) (dispatchTimes 0 (trace stampedTwice))"
proof -
  have p: "pendings rearmed = [Timer 0 task1 1050 (107 / 2)]"
    unfolding task1_def by code_simp
  have l: "lastRequestTime (proxies rearmed ! 0) = 1003" by code_simp
  have t: "timely (3 / 2) earlyTimers (ProxyManager 1)" by code_simp
  have d: "dispatchTimes 0 (trace stampedTwice) = [1003, 1102]" by code_simp
  have u: "0 < length (pendings sendUnderWay)"
    "pendings sendUnderWay ! 0 =
       Sending 0 \<lparr>taskId = 0, privateKey = ''0xkey'', nonce = 7, methodName = ''0x05632f40''\<rparr>"
    "isHealthy (proxies rearmed ! 0)" "requestQueue (proxies sendUnderWay ! 0) \<noteq> []"
    by code_simp+
  have h: "0 < length (pendings sendUnderWay) \<and>
      pendings sendUnderWay ! 0 =
        Sending 0 \<lparr>taskId = 0, privateKey = ''0xkey'', nonce = 7, methodName = ''0x05632f40''\<rparr> \<and>
      step (SendEnds 1050 (1 / 2) 0 (Sent ''0xabc'')) sendUnderWay = Some rearmed \<and>
      isHealthy (proxies rearmed ! 0) \<and> requestQueue (proxies sendUnderWay ! 0) \<noteq> []"
    using u rearmed_step unfolding firstSendEnds_def by (intro conjI)
  note drain = dispatch_spacing[OF sendUnderWay_run, THEN conjunct2, THEN conjunct1,
      rule_format, OF h]
  have mem: "Timer 0 task1 1050 (107 / 2) \<in> set (pendings rearmed)" unfolding p by simp
  note armed = dispatch_spacing[OF rearmed_run, THEN conjunct1, rule_format, OF mem]
  have j: "\<exists>jitter. 0 \<le> jitter \<and> jitter < 10 \<and>
        (107 / 2 :: real) = max 0 (MIN_REQUEST_INTERVAL_MS - (1050 - 1003)) + jitter"
    using armed unfolding l .
  have s: "spaced (MIN_REQUEST_INTERVAL_MS - 3 / 2) (dispatchTimes 0 (trace stampedTwice))"
    using dispatch_spacing[OF stampedTwice_run, THEN conjunct2, THEN conjunct2, THEN conjunct1,
        rule_format, OF t, of 0] by simp
  show ?thesis by (intro conjI) (fact drain p l j t d s)+
qed

subsection \<open>The end of a send\<close>

text \<open>
  Claim C7, as amended. The proxy is stamped when the timer's callback starts the send,
  before the external send, and the end of the send leaves the stamp alone. At the end
  of the send the proxy's health is updated first (success: counter 0 and healthy; error:
  counter plus one, unhealthy from \<^verbatim>\<open>MAX_PROXY_FAILURES\<close> on), then the task's promise
  is resolved or rejected, then \<^verbatim>\<open>isProcessing\<close> is cleared, and then
  \<^verbatim>\<open>_processQueue\<close> is called exactly when the proxy is healthy and its queue is not
  empty; that call takes the next task at once.
\<close>

theorem completion_order:
  assumes "i < length (proxies m)"
  defines "p \<equiv> proxies m ! i"
  defines "fc \<equiv> failureCount (proxies m ! i) + 1"
  defines "drain \<equiv> (\<lambda>healthy now jitter.
     if healthy \<and> requestQueue (proxies m ! i) \<noteq> []
     then [CallProcessQueue i, SetProcessing i True,
           Dequeue i (taskId (hd (requestQueue (proxies m ! i)))),
           SetTimeout i (taskId (hd (requestQueue (proxies m ! i))))
             (max 0 (MIN_REQUEST_INTERVAL_MS - (now - lastRequestTime (proxies m ! i))) + jitter)]
     else [])"
  shows "trace (timerCallback now0 i t m) = trace m @ [SetLastRequestTime i now0, SendStart i (taskId t)]
       \<and> lastRequestTime (proxies (timerCallback now0 i t m) ! i) = now0
       \<and> lastRequestTime (proxies (sendSettled now jitter i t outcome m) ! i) = lastRequestTime p
       \<and> trace (sendSettled now jitter i t outcome m) = trace m @
            (case outcome of
               Sent receipt \<Rightarrow>
                 [SetFailureCount i 0, SetHealthy i True, TaskResolve (taskId t) receipt,
                  SetProcessing i False] @ drain True now jitter
             | Threw error \<Rightarrow>
                 if fc \<ge> MAX_PROXY_FAILURES
                 then [SetFailureCount i fc, SetHealthy i False, TaskReject (taskId t) error,
                       SetProcessing i False]
                 else [SetFailureCount i fc, TaskReject (taskId t) error,
                       SetProcessing i False] @ drain (isHealthy p) now jitter)"
proof -
  have a: "trace (timerCallback now0 i t m) = trace m @ [SetLastRequestTime i now0, SendStart i (taskId t)]"
    by (simp add: timerCallback_def Let_def)
  have b: "lastRequestTime (proxies (timerCallback now0 i t m) ! i) = now0"
    using assms(1) by (simp add: timerCallback_def Let_def)
  have c: "lastRequestTime (proxies (sendSettled now jitter i t outcome m) ! i) = lastRequestTime p"
    using sendSettled_health(3)[OF assms(1)] by (simp add: p_def)
  let ?m2 = "settledState i t outcome m"
  let ?m3 = "emit [CallProcessQueue i] ?m2"
  have cp: "canProcess i ?m3 \<longleftrightarrow>
      isHealthy (settledProxy outcome p) \<and> requestQueue p \<noteq> []"
    using assms(1) by (cases outcome) (auto simp: canProcess_def settledProxy_def p_def)
  have hd: "hd (requestQueue (proxies ?m3 ! i)) = hd (requestQueue p)"
    "lastRequestTime (proxies ?m3 ! i) = lastRequestTime p"
    "requestQueue (proxies ?m2 ! i) = requestQueue p"
    "isHealthy (proxies ?m2 ! i) = isHealthy (settledProxy outcome p)"
    using assms(1) by (cases outcome; simp add: settledProxy_def p_def)+
  have sp: "requestQueue (settledProxy outcome q) = requestQueue q"
    "lastRequestTime (settledProxy outcome q) = lastRequestTime q" for q
    by (cases outcome; simp add: settledProxy_def)+
  have tr: "trace (sendSettled now jitter i t outcome m) =
      trace m @ settleEffects i t outcome p @ drain (isHealthy (settledProxy outcome p)) now jitter"
    unfolding sendSettled_eq[OF assms(1)] Let_def processQueue_eq cp hd
    using assms(1) by (simp add: drain_def p_def sp)
  have d: "settleEffects i t outcome p @ drain (isHealthy (settledProxy outcome p)) now jitter =
      (case outcome of
               Sent receipt \<Rightarrow>
                 [SetFailureCount i 0, SetHealthy i True, TaskResolve (taskId t) receipt,
                  SetProcessing i False] @ drain True now jitter
             | Threw error \<Rightarrow>
                 if fc \<ge> MAX_PROXY_FAILURES
                 then [SetFailureCount i fc, SetHealthy i False, TaskReject (taskId t) error,
                       SetProcessing i False]
                 else [SetFailureCount i fc, TaskReject (taskId t) error,
                       SetProcessing i False] @ drain (isHealthy p) now jitter)"
    by (cases outcome) (auto simp: settleEffects_def settledProxy_def fc_def p_def drain_def)
  show ?thesis using a b c tr d by simp
qed

theorem completion_order_witness:
  "trace (sendSettled 1200 2 0 task0 (Sent ''0xabc'') sendingState) = trace sendingState @
      [SetFailureCount 0 0, SetHealthy 0 True, TaskResolve 0 ''0xabc'', SetProcessing 0 False,
       CallProcessQueue 0, SetProcessing 0 True, Dequeue 0 1, SetTimeout 0 1 2]
   \<and> lastRequestTime (proxies (sendSettled 1200 2 0 task0 (Sent ''0xabc'') sendingState) ! 0) = 1005"
proof -
  have i: "0 < length (proxies sendingState)" by code_simp
  have q: "requestQueue (proxies sendingState ! 0) =
     [\<lparr>taskId = 1, privateKey = ''0xkey'', nonce = 8, methodName = ''0x05632f40''\<rparr>]"
    "lastRequestTime (proxies sendingState ! 0) = 1005"
    by code_simp+
  from completion_order[OF i, where now = 1200 and jitter = 2 and t = task0
      and outcome = "Sent ''0xabc''"] q show ?thesis
    by (simp add: task0_def MIN_REQUEST_INTERVAL_MS_def)
qed

text \<open>
  The claim as written fails: a send that ends at time 1200 leaves
  \<^verbatim>\<open>lastRequestTime\<close> at 1005, the time its timer fired, and the only stamp of the run
  comes before the send is started.
\<close>

theorem completion_stamp_counterexample:
  "(case run [Submit 1000 3 ''0xkey'' 7 ''0x05632f40'', TimerFires 1005 0,
              SendEnds 1200 2 0 (Sent ''0xabc'')] (ProxyManager 1) of
      None \<Rightarrow> False
    | Some m \<Rightarrow>
        clock m = 1200 \<and> lastRequestTime (proxies m ! 0) = 1005
        \<and> lastRequestTime (proxies m ! 0) \<noteq> clock m
        \<and> trace m =
            [Enqueue 0 0, CallProcessQueue 0, SetProcessing 0 True, Dequeue 0 0,
             SetTimeout 0 0 3, SetLastRequestTime 0 1005, SendStart 0 0,
             SetFailureCount 0 0, SetHealthy 0 True, TaskResolve 0 ''0xabc'',
             SetProcessing 0 False])"
  by code_simp

subsection \<open>Tasks left in the queue of an unhealthy proxy\<close>

text \<open>
  Claim C10. Take a state the manager can reach in which proxy \<open>i\<close> is unhealthy, and any
  further events. Afterwards the proxy is still unhealthy, its queue holds the same
  tasks, and none of these tasks was taken off the queue, had its send started, or had
  its promise resolved or rejected.
\<close>

theorem stranded_tasks_never_settle:
  assumes "run es (ProxyManager n) = Some m"
    and "i < n" and "\<not> isHealthy (proxies m ! i)"
    and "run es' m = Some m'"
  shows "\<not> isHealthy (proxies m' ! i)
       \<and> requestQueue (proxies m' ! i) = requestQueue (proxies m ! i)
       \<and> (\<forall>t \<in> set (requestQueue (proxies m ! i)).
             taskId t \<notin> set (dequeuedIds (trace m'))
           \<and> taskId t \<notin> set (startedIds (trace m'))
           \<and> taskId t \<notin> set (settledIds (trace m')))"
proof -
  have ok: "allOk m" using reachable_allOk[OF assms(1)] .
  have ok': "allOk m'" using run_allOk[OF ok assms(4)] .
  have len: "length (proxies m) = n"
    using run_length[OF assms(1)] by (simp add: ProxyManager_def)
  have len': "length (proxies m') = n" using run_length[OF assms(4)] len by simp
  have i: "i < length (proxies m)" using assms(2) len by simp
  have same: "proxies m' ! i = proxies m ! i"
    using run_frozen[OF _ i assms(3,4)] ok by (simp add: allOk_def)
  have ids: "idsOk m'" using ok' by (simp add: allOk_def)
  have i': "i < length (proxies m')" using assms(2) len' by simp
  have "\<forall>t \<in> set (requestQueue (proxies m ! i)).
             taskId t \<notin> set (dequeuedIds (trace m'))
           \<and> taskId t \<notin> set (startedIds (trace m'))
           \<and> taskId t \<notin> set (settledIds (trace m'))"
    using queued_untouched[OF ids i'] same by simp
  then show ?thesis using same assms(3) by simp
qed

theorem stranded_tasks_never_settle_witness:
  "\<not> isHealthy (proxies demoted ! 0)
   \<and> map taskId (requestQueue (proxies demoted ! 0)) = [3]
   \<and> map taskId (requestQueue (proxies (the (run laterEvents demoted)) ! 0)) = [3]
   \<and> settledIds (trace (the (run laterEvents demoted))) = [0, 1, 2, 4, 5]
   \<and> 3 \<notin> set (settledIds (trace (the (run laterEvents demoted))))"
proof -
  have h: "\<not> isHealthy (proxies demoted ! 0)" by code_simp
  have q: "map taskId (requestQueue (proxies demoted ! 0)) = [3]" by code_simp
  have r: "run laterEvents demoted = Some (the (run laterEvents demoted))" by code_simp
  have s: "settledIds (trace (the (run laterEvents demoted))) = [0, 1, 2, 4, 5]" by code_simp
  from stranded_tasks_never_settle[OF demoted_run _ h r] h q s show ?thesis by simp
qed

subsection \<open>The attempt budget\<close>

text \<open>
  Claim C3. When every send of a logical submission is refused with a nonce error and
  every nonce fetch succeeds, the flow makes exactly five sends
  (\<^verbatim>\<open>MAX_TRANSACTION_RETRIES\<close>) and five nonce fetches, and ends as \<open>Failed\<close>. This
  holds for either list of retryable messages.
\<close>

theorem all_conflicts_five_attempts:
  assumes "\<forall>k. \<exists>e. sends k = Threw e \<and> isNonceError e"
    and "\<forall>k. fetches k \<noteq> None"
  shows "fst (attemptLoop retryable sends fetches 0 w) = Failed
       \<and> sendCount (snd (attemptLoop retryable sends fetches 0 w)) = sendCount w + 5
       \<and> fetchCount (snd (attemptLoop retryable sends fetches 0 w)) = fetchCount w + 5
       \<and> MAX_TRANSACTION_RETRIES = 5"
  using all_conflicts_count[OF assms, of 0 retryable w]
  by (simp add: MAX_TRANSACTION_RETRIES_def)

theorem all_conflicts_five_attempts_witness:
  "attemptLoop isRetryableError alwaysConflict fetchOk 0 (newWallet 7) =
     (Failed, \<lparr>currentNonce = 24, sendCount = 5, fetchCount = 5,
        walletLog = [Submitted 7 False, Refetched 20, Submitted 20 False, Refetched 21,
          Submitted 21 False, Refetched 22, Submitted 22 False, Refetched 23,
          Submitted 23 False, Refetched 24]\<rparr>)"
proof -
  have c: "isNonceError nonceTooLow" by code_simp
  have a: "\<forall>k. \<exists>e. alwaysConflict k = Threw e \<and> isNonceError e"
    using c by (simp add: alwaysConflict_def)
  have f: "\<forall>k. fetchOk k \<noteq> None" by (simp add: fetchOk_def)
  have e: "attemptLoop isRetryableError alwaysConflict fetchOk 0 (newWallet 7) =
     (Failed, \<lparr>currentNonce = 24, sendCount = 5, fetchCount = 5,
        walletLog = [Submitted 7 False, Refetched 20, Submitted 20 False, Refetched 21,
          Submitted 21 False, Refetched 22, Submitted 22 False, Refetched 23,
          Submitted 23 False, Refetched 24]\<rparr>)"
    by code_simp
  from all_conflicts_five_attempts[OF a f, of isRetryableError "newWallet 7"] e
  show ?thesis by simp
qed

subsection \<open>The nonce after a success\<close>

text \<open>
  Claim C2, as amended. A logical submission that succeeds leaves the wallet's nonce at
  the nonce of its successful send plus one. When the submissions of a wallet run one
  after the other, every successful send uses the nonce of the successful send before it
  plus one, unless a nonce was fetched in between: a fetched nonce replaces the wallet's
  nonce by whatever the provider reports.
\<close>

theorem success_increments_nonce:
  "(case attemptLoop retryable sends fetches attempt w of
      (Succeeded, w') \<Rightarrow>
         last (walletLog w') = Submitted (currentNonce w' - 1) True \<and> currentNonce w' \<ge> 1
    | (Failed, w') \<Rightarrow> True)
   \<and> byOne None (walletLog (snd (runWallet retryable sends fetches k (newWallet n0))))"
proof -
  have a: "(case attemptLoop retryable sends fetches attempt w of
      (Succeeded, w') \<Rightarrow>
         last (walletLog w') = Submitted (currentNonce w' - 1) True \<and> currentNonce w' \<ge> 1
    | (Failed, w') \<Rightarrow> True)"
  proof (cases "attemptLoop retryable sends fetches attempt w")
    case (Pair r w')
    show ?thesis
    proof (cases r)
      case Succeeded
      with Pair attemptLoop_success[of retryable sends fetches attempt w]
      show ?thesis by auto
    next
      case Failed
      with Pair show ?thesis by simp
    qed
  qed
  have "walletOk (newWallet n0)" by (simp add: walletOk_def newWallet_def)
  from runWallet_ok[OF this] have "byOne None (walletLog (snd (runWallet retryable sends fetches k (newWallet n0))))"
    by (simp add: walletOk_def)
  with a show ?thesis by simp
qed

theorem success_increments_nonce_witness:
  "attemptLoop isRetryableError conflictBetween fetchTwelve 0 (newWallet 7) =
     (Succeeded, \<lparr>currentNonce = 8, sendCount = 1, fetchCount = 0,
                  walletLog = [Submitted 7 True]\<rparr>)
   \<and> walletLog (snd (runWallet isRetryableError conflictBetween fetchTwelve 2 (newWallet 7)))
        = [Submitted 7 True, Submitted 8 False, Refetched 12, Submitted 12 True]
   \<and> byOne None [Submitted 7 True, Submitted 8 False, Refetched 12, Submitted 12 True]
   \<and> successNonces (walletLog (snd (runWallet isRetryableError (\<lambda>k. Sent ''0xhash'') fetchTwelve 3 (newWallet 7))))
        = [7, 8, 9]"
proof -
  have a: "attemptLoop isRetryableError conflictBetween fetchTwelve 0 (newWallet 7) =
     (Succeeded, \<lparr>currentNonce = 8, sendCount = 1, fetchCount = 0,
                  walletLog = [Submitted 7 True]\<rparr>)" by code_simp
  have b: "walletLog (snd (runWallet isRetryableError conflictBetween fetchTwelve 2 (newWallet 7)))
        = [Submitted 7 True, Submitted 8 False, Refetched 12, Submitted 12 True]" by code_simp
  have c: "successNonces (walletLog (snd (runWallet isRetryableError (\<lambda>k. Sent ''0xhash'') fetchTwelve 3 (newWallet 7))))
        = [7, 8, 9]" by code_simp
  from success_increments_nonce[of isRetryableError conflictBetween fetchTwelve 0 "newWallet 7" 2 7]
    a b c show ?thesis by simp
qed

text \<open>
  The claim as written fails: the first submission succeeds with nonce 7, the second is
  refused once for its nonce, the provider reports 12, and the retry succeeds with nonce
  12.
\<close>

theorem consecutive_nonces_counterexample:
  "fst (runWallet isRetryableError conflictBetween fetchTwelve 2 (newWallet 7))
     = [Succeeded, Succeeded]
   \<and> successNonces (walletLog (snd (runWallet isRetryableError conflictBetween fetchTwelve 2 (newWallet 7))))
     = [7, 12]
   \<and> (12::nat) \<noteq> 7 + 1"
  by code_simp

subsection \<open>One call at a time, in order, spaced\<close>

text \<open>
  Claim C8, as amended. In every state the queue of nonce fetches can reach, at most one
  call to \<^verbatim>\<open>directProvider.getTransactionCount\<close> is under way (and at most one invocation
  of \<^verbatim>\<open>processDirectNonceQueue\<close> is suspended at all). The entries pushed are, in this
  order, the entries taken off the queue followed by the waiting ones; the entries taken
  off are those that reached the provider followed by the sleeping one; and those that
  reached the provider are the answered ones followed by the one being asked. The times
  at which the provider is called are \<^verbatim>\<open>DIRECT_PROVIDER_CALL_INTERVAL_MS\<close> apart only up
  to the tolerance of the waits: if \<^verbatim>\<open>Date.now()\<close> never went back and no \<^verbatim>\<open>delay\<close>
  ended more than \<open>tol\<close> before it was due, two consecutive calls are at least
  \<open>DIRECT_PROVIDER_CALL_INTERVAL_MS - tol\<close> apart, whichever wallet asked.
\<close>

theorem single_flight_fifo:
  assumes "qrun es newFetcher = Some f"
  shows "callsInFlight f \<le> 1
       \<and> length (activations f) \<le> 1
       \<and> pushedIds (ftrace f) = shiftedIds (ftrace f) @ map entryId (directProviderNonceQueue f)
       \<and> shiftedIds (ftrace f) = calledIds (ftrace f) @ sleepingIds (activations f)
       \<and> calledIds (ftrace f) = answeredIds (ftrace f) @ callingIds (activations f)
       \<and> (\<forall>tol. 0 \<le> tol \<and> qtimely tol es newFetcher \<longrightarrow>
            spaced (DIRECT_PROVIDER_CALL_INTERVAL_MS - tol) (callTimes (ftrace f)))"
proof -
  have ok: "queueOk f" using qrun_queue[OF newFetcher_queue assms] .
  then have l: "length (activations f) \<le> 1" by (simp add: queueOk_def flagOk_def)
  have "callsInFlight f \<le> length (activations f)" by (simp add: callsInFlight_def)
  then have c: "callsInFlight f \<le> 1" using l by simp
  have s: "spaced (DIRECT_PROVIDER_CALL_INTERVAL_MS - tol) (callTimes (ftrace f))"
    if "0 \<le> tol" "qtimely tol es newFetcher" for tol
    using qrun_ok[OF newFetcher_ok assms that(2,1)] by (simp add: fetcherOk_def spacingOk_def)
  show ?thesis using ok l c s by (simp add: queueOk_def fifoOk_def)
qed

lemma afterThreeFetches_run: "qrun threeFetches newFetcher = Some afterThreeFetches"
  unfolding afterThreeFetches_def by code_simp

theorem single_flight_fifo_witness:
  "callsInFlight afterThreeFetches = 1
   \<and> pushedIds (ftrace afterThreeFetches) = [0, 1, 2]
   \<and> calledIds (ftrace afterThreeFetches) = [0, 1, 2]
   \<and> answeredIds (ftrace afterThreeFetches) = [0, 1]
   \<and> qtimely 1 threeFetches newFetcher
   \<and> callTimes (ftrace afterThreeFetches) = [1000, 1149, 1499]
   \<and> spaced (DIRECT_PROVIDER_CALL_INTERVAL_MS - 1) (callTimes (ftrace afterThreeFetches))"
proof -
  have e: "callsInFlight afterThreeFetches = 1"
    "pushedIds (ftrace afterThreeFetches) = [0, 1, 2]"
    "calledIds (ftrace afterThreeFetches) = [0, 1, 2]"
    "answeredIds (ftrace afterThreeFetches) = [0, 1]"
    "callTimes (ftrace afterThreeFetches) = [1000, 1149, 1499]"
    by code_simp+
  have t: "qtimely 1 threeFetches newFetcher" by code_simp
  have z: "(0::real) \<le> 1" by simp
  note all = single_flight_fifo[OF afterThreeFetches_run]
  have "\<forall>tol. 0 \<le> tol \<and> qtimely tol threeFetches newFetcher \<longrightarrow>
      spaced (DIRECT_PROVIDER_CALL_INTERVAL_MS - tol) (callTimes (ftrace afterThreeFetches))"
    using all by (elim conjE)
  then have s: "spaced (DIRECT_PROVIDER_CALL_INTERVAL_MS - 1) (callTimes (ftrace afterThreeFetches))"
    using z t by blast
  show ?thesis by (intro conjI) (fact e t s)+
qed

text \<open>
  The claim as written fails: the wait of 100 ms that starts at 1000 ends when
  \<^verbatim>\<open>Date.now()\<close> gives 1099, the code calls the provider without reading the clock
  again, and the two calls are 99 ms apart.
\<close>

theorem call_spacing_counterexample:
  "qtimely 1 earlyWake newFetcher
   \<and> (case qrun earlyWake newFetcher of
        None \<Rightarrow> False
      | Some f \<Rightarrow>
          callTimes (ftrace f) = [1000, 1099]
          \<and> callsInFlight f = 1
          \<and> \<not> spaced DIRECT_PROVIDER_CALL_INTERVAL_MS (callTimes (ftrace f)))"
  by code_simp

subsection \<open>Dispatch without the lock\<close>

text \<open>
  Claim C1 says that every dispatch of a transaction for a wallet is serialized by the
  wallet's lock, so that no two attempts of one wallet are pending together. The
  \<^verbatim>\<open>main\<close> that calls \<^verbatim>\<open>withWalletLock\<close> keeps this (lemma
  \<open>wallet_lock_mutual_exclusion\<close>). The earlier \<^verbatim>\<open>main\<close> takes no lock: with one active
  wallet, two turns of its loop leave two flows of wallet 0 running together.
\<close>

theorem earlier_main_overlap:
  "(case dispatchNext 1 newEarlier of
      None \<Rightarrow> False
    | Some e1 \<Rightarrow>
        (case dispatchNext 1 e1 of
           None \<Rightarrow> False
         | Some e2 \<Rightarrow> flows e2 = [(0, True), (0, True)] \<and> runningFor 0 e2 = 2))"
  by code_simp

end
